theory Spec2Isabelle
  imports Main "HOL-Library.Sublist"
begin

section \<open>awstail: a shallow embedding of \<^verbatim>\<open>src/index.ts\<close>\<close>

text \<open>
  The program polls CloudWatch Logs and renders the events on a terminal. The
  theory embeds the functions of \<^verbatim>\<open>src/index.ts\<close> that carry its logic: the
  substring tests of the line formatter, the lookback parser, the keystroke-driven
  filter and the two fetch loops.

  Conventions of the embedding.
  \<^item> A JavaScript string is a \<^typ>\<open>string\<close>: a list of code units, each below 256
    (ASCII and Latin-1). Code units above 255 are outside the model.
  \<^item> A JavaScript number that holds an integer is an \<^typ>\<open>int\<close>. The two agree
    as long as every value stays a safe integer (magnitude at most \<open>2^53 - 1\<close>),
    which covers millisecond timestamps.
  \<^item> A value that may be \<^verbatim>\<open>undefined\<close> is an \<^typ>\<open>'a option\<close>.
  \<^item> A \<^verbatim>\<open>throw\<close> is the left summand of a sum type.
\<close>

subsection \<open>Strings\<close>

text \<open>
  \<^verbatim>\<open>String.prototype.includes(p)\<close>: is there an index at which \<open>p\<close> starts?
  The indices are tried from the left.
\<close>

fun includes_js :: "string \<Rightarrow> string \<Rightarrow> bool" where
  "includes_js [] p = (p = [])"
| "includes_js (c # s) p = (prefix p (c # s) \<or> includes_js s p)"

text \<open>A thrown \<^verbatim>\<open>Error\<close> with its message.\<close>

datatype error = Error string

subsection \<open>The lookback parser\<close>

text \<open>
  \<^verbatim>\<open>
  function parseTimeFormat(timeStr: string): number {
    const match = timeStr.match(/^(\d+)([smhd])$/);
    if (!match) {
      throw new Error(
        `Invalid time format: ${timeStr}. Use formats like: 10s, 22m, 2h, 1d`);
    }
    const [, amount, unit] = match;
    const num = Number.parseInt(amount, 10);
    const multipliers = { s: 1000, m: 60 * 1000, h: 60 * 60 * 1000,
                          d: 24 * 60 * 60 * 1000 };
    return num * multipliers[unit as keyof typeof multipliers];
  }
  \<close>
  The regular expression is anchored at both ends. Its greedy \<^verbatim>\<open>\d+\<close> takes the
  longest run of digits at the start of the string; what is left must be one letter of
  the class \<^verbatim>\<open>[smhd]\<close>. (A shorter run of digits cannot match either: the character
  after it would be a digit.) The letter is a key of \<^verbatim>\<open>multipliers\<close>, which is what
  the cast of the source says; the keys are a datatype here.
\<close>

definition is_digit :: "char \<Rightarrow> bool" where
  "is_digit c = (c \<in> set ''0123456789'')"

datatype multiplier_key = Key_s | Key_m | Key_h | Key_d

definition key_of :: "char \<Rightarrow> multiplier_key option" where
  "key_of c =
     (if c = CHR ''s'' then Some Key_s
      else if c = CHR ''m'' then Some Key_m
      else if c = CHR ''h'' then Some Key_h
      else if c = CHR ''d'' then Some Key_d
      else None)"

definition match_time :: "string \<Rightarrow> (string \<times> multiplier_key) option" where
  "match_time timeStr =
     (let amount = takeWhile is_digit timeStr;
          rest = dropWhile is_digit timeStr
      in if amount = [] then None
         else case rest of
                [u] \<Rightarrow> (case key_of u of
                           Some unit_key \<Rightarrow> Some (amount, unit_key)
                         | None \<Rightarrow> None)
              | _ \<Rightarrow> None)"

text \<open>\<^verbatim>\<open>Number.parseInt(amount, 10)\<close> on a string of decimal digits.\<close>

definition parseInt :: "string \<Rightarrow> int" where
  "parseInt amount = foldl (\<lambda>num c. 10 * num + (int (of_char c) - 48)) 0 amount"

definition multipliers :: "multiplier_key \<Rightarrow> int" where
  "multipliers unit_key =
     (case unit_key of
        Key_s \<Rightarrow> 1000
      | Key_m \<Rightarrow> 60 * 1000
      | Key_h \<Rightarrow> 60 * 60 * 1000
      | Key_d \<Rightarrow> 24 * 60 * 60 * 1000)"

definition parseTimeFormat :: "string \<Rightarrow> error + int" where
  "parseTimeFormat timeStr =
     (case match_time timeStr of
        None \<Rightarrow>
          Inl (Error (''Invalid time format: '' @ timeStr
                      @ ''. Use formats like: 10s, 22m, 2h, 1d''))
      | Some (amount, unit_key) \<Rightarrow> Inr (parseInt amount * multipliers unit_key))"

text \<open>
  The start time in \<^verbatim>\<open>main\<close>:
  \<^verbatim>\<open>
  let startTime: number;
  try {
    const sinceMs = parseTimeFormat(argv.flags.since);
    startTime = Date.now() - sinceMs;
  } catch (error) {
    console.error(`Error parsing --since: ${error.message}`);
    exit(1);
  }
  \<close>
  \<open>now\<close> is the value of \<^verbatim>\<open>Date.now()\<close>. \<open>Inl (line, code)\<close> is the end of the
  process with the exit code \<open>code\<close> after \<open>line\<close> went to the standard error.
\<close>

definition main_startTime :: "int \<Rightarrow> string \<Rightarrow> (string \<times> int) + int" where
  "main_startTime now since =
     (case parseTimeFormat since of
        Inl (Error error_message) \<Rightarrow> Inl (''Error parsing --since: '' @ error_message, 1)
      | Inr sinceMs \<Rightarrow> Inr (now - sinceMs))"

text \<open>
  The specification's side: the strings of the pattern \<^verbatim>\<open>^\d+[smhd]$\<close>, the number
  that a string of digits denotes, and the milliseconds of a unit letter.
\<close>

definition lookback_pattern :: "string \<Rightarrow> bool" where
  "lookback_pattern str =
     (\<exists>ds u. str = ds @ [u] \<and> ds \<noteq> [] \<and> (\<forall>c\<in>set ds. c \<in> set ''0123456789'')
        \<and> u \<in> set ''smhd'')"

definition decimal_value :: "string \<Rightarrow> int" where
  "decimal_value ds =
     (\<Sum>i<length ds. (int (of_char (ds ! i)) - 48) * 10 ^ (length ds - 1 - i))"

definition unit_ms :: "char \<Rightarrow> int" where
  "unit_ms u =
     (if u = CHR ''s'' then 1000
      else if u = CHR ''m'' then 60000
      else if u = CHR ''h'' then 3600000
      else 86400000)"

subsection \<open>The correlation token\<close>

text \<open>
  \<^verbatim>\<open>
  function extractRequestId(message: string): string {
    let match = message.match(/RequestId: ([a-f0-9-]+)/);
    if (match) {
      return match[1].slice(0, 6);
    }
    match = message.match(
      /([a-f0-9]{8}-[a-f0-9]{4}-[a-f0-9]{4}-[a-f0-9]{4}-[a-f0-9]{12})/);
    if (match) {
      return match[1].slice(0, 6);
    }
    return "------";
  }
  \<close>
  Neither regular expression is anchored or global: \<^verbatim>\<open>match\<close> tries the pattern at
  every index of the string from the left and stops at the first index where it
  matches. \<open>first_match at_start s\<close> does that for a pattern given as the function
  \<open>at_start\<close>, which matches at the start of its argument and returns group 1.
\<close>

fun first_match :: "(string \<Rightarrow> 'a option) \<Rightarrow> string \<Rightarrow> 'a option" where
  "first_match at_start [] = at_start []"
| "first_match at_start (c # s) =
     (case at_start (c # s) of
        Some group1 \<Rightarrow> Some group1
      | None \<Rightarrow> first_match at_start s)"

text \<open>The classes \<^verbatim>\<open>[a-f0-9-]\<close> and \<^verbatim>\<open>[a-f0-9]\<close>, and the hyphen.\<close>

definition is_id_char :: "char \<Rightarrow> bool" where
  "is_id_char c = (c \<in> set ''abcdef0123456789-'')"

definition is_hex :: "char \<Rightarrow> bool" where
  "is_hex c = (c \<in> set ''abcdef0123456789'')"

definition is_hyphen :: "char \<Rightarrow> bool" where
  "is_hyphen c = (c = CHR ''-'')"

text \<open>
  \<^verbatim>\<open>/RequestId: ([a-f0-9-]+)/\<close> at the start of \<open>s\<close>: the literal text, then the
  longest run of the class, which must not be empty. Group 1 is that run.
\<close>

definition at_RequestId :: "string \<Rightarrow> string option" where
  "at_RequestId s =
     (if prefix ''RequestId: '' s
      then
        let group1 = takeWhile is_id_char (drop (length ''RequestId: '') s)
        in if group1 = [] then None else Some group1
      else None)"

text \<open>
  A pattern that is a sequence of items \<^verbatim>\<open>class{n}\<close>, at the start of \<open>s\<close>: each item
  takes exactly \<open>n\<close> characters of its class. The result is the text matched.
\<close>

fun match_counts :: "((char \<Rightarrow> bool) \<times> nat) list \<Rightarrow> string \<Rightarrow> string option" where
  "match_counts [] s = Some []"
| "match_counts ((cls, n) # items) s =
     (if n \<le> length s \<and> list_all cls (take n s)
      then case match_counts items (drop n s) of
             Some matched \<Rightarrow> Some (take n s @ matched)
           | None \<Rightarrow> None
      else None)"

definition uuid_regex :: "((char \<Rightarrow> bool) \<times> nat) list" where
  "uuid_regex =
     [(is_hex, 8), (is_hyphen, 1), (is_hex, 4), (is_hyphen, 1), (is_hex, 4),
      (is_hyphen, 1), (is_hex, 4), (is_hyphen, 1), (is_hex, 12)]"

definition at_uuid :: "string \<Rightarrow> string option" where
  "at_uuid s = match_counts uuid_regex s"

definition extractRequestId :: "string \<Rightarrow> string" where
  "extractRequestId message =
     (case first_match at_RequestId message of
        Some group1 \<Rightarrow> take 6 group1
      | None \<Rightarrow>
          (case first_match at_uuid message of
             Some group1 \<Rightarrow> take 6 group1
           | None \<Rightarrow> ''------''))"

text \<open>
  What the program takes for an id and for a UUID, in words of the message alone.
  At the index \<open>i\<close> of \<open>msg\<close> stands the marker \<open>RequestId:\<close> with a blank, then the
  id \<open>run\<close>: a run of the characters a to f, 0 to 9 and the hyphen that is not empty
  and that no such character follows.
\<close>

definition id_after_marker_at :: "string \<Rightarrow> nat \<Rightarrow> string \<Rightarrow> bool" where
  "id_after_marker_at msg i run =
     (\<exists>rest. drop i msg = ''RequestId: '' @ run @ rest \<and> run \<noteq> []
        \<and> (\<forall>x\<in>set run. x \<in> set ''abcdef0123456789-'')
        \<and> (\<forall>y ys. rest = y # ys \<longrightarrow> y \<notin> set ''abcdef0123456789-''))"

text \<open>
  A UUID in lower case: groups of 8, 4, 4, 4 and 12 of the characters a to f and 0 to
  9, with a hyphen between two groups.
\<close>

definition hex_group :: "nat \<Rightarrow> string \<Rightarrow> bool" where
  "hex_group n a = (length a = n \<and> (\<forall>x\<in>set a. x \<in> set ''abcdef0123456789''))"

definition uuid_shaped :: "string \<Rightarrow> bool" where
  "uuid_shaped u =
     (\<exists>a b c d e. u = a @ ''-'' @ b @ ''-'' @ c @ ''-'' @ d @ ''-'' @ e
        \<and> hex_group 8 a \<and> hex_group 4 b \<and> hex_group 4 c \<and> hex_group 4 d
        \<and> hex_group 12 e)"

definition uuid_at :: "string \<Rightarrow> nat \<Rightarrow> string \<Rightarrow> bool" where
  "uuid_at msg i u = (i \<le> length msg \<and> prefix u (drop i msg) \<and> uuid_shaped u)"

subsection \<open>The level tag\<close>

text \<open>
  \<^verbatim>\<open>
  function extractLogLevel(message: string): string {
    if (message.includes("ERROR")) return "ERR";
    if (message.includes("WARN")) return "WRN";
    if (message.includes("INFO")) return "INF";
    if (message.includes("DEBUG")) return "DBG";
    if (message.includes("START RequestId:")) return "STR";
    if (message.includes("END RequestId:")) return "END";
    if (message.includes("REPORT RequestId:")) return "RPT";
    if (message.includes("INIT_START")) return "INI";
    return "   ";
  }
  \<close>
\<close>

definition extractLogLevel :: "string \<Rightarrow> string" where
  "extractLogLevel message =
     (if includes_js message ''ERROR'' then ''ERR''
      else if includes_js message ''WARN'' then ''WRN''
      else if includes_js message ''INFO'' then ''INF''
      else if includes_js message ''DEBUG'' then ''DBG''
      else if includes_js message ''START RequestId:'' then ''STR''
      else if includes_js message ''END RequestId:'' then ''END''
      else if includes_js message ''REPORT RequestId:'' then ''RPT''
      else if includes_js message ''INIT_START'' then ''INI''
      else ''   '')"

text \<open>
  The priority table as the specification words it: the markers from the highest
  priority to the lowest, each with its tag.
\<close>

definition level_priority :: "(string \<times> string) list" where
  "level_priority =
     [(''ERROR'', ''ERR''), (''WARN'', ''WRN''), (''INFO'', ''INF''), (''DEBUG'', ''DBG''),
      (''START RequestId:'', ''STR''), (''END RequestId:'', ''END''),
      (''REPORT RequestId:'', ''RPT''), (''INIT_START'', ''INI'')]"

definition first_match_tag :: "string \<Rightarrow> string" where
  "first_match_tag message =
     (case find (\<lambda>(marker, tag). sublist marker message) level_priority of
        Some (marker, tag) \<Rightarrow> tag
      | None \<Rightarrow> ''   '')"

subsection \<open>The interactive filter\<close>

text \<open>
  \<^verbatim>\<open>String.prototype.toLowerCase()\<close> on code units below 256: the ASCII capitals
  \<open>A\<close> to \<open>Z\<close> (65 to 90) and the Latin-1 capitals (192 to 222 but for the
  multiplication sign 215) move up by 32, every other code unit stays.
\<close>

definition toLowerCase_unit :: "char \<Rightarrow> char" where
  "toLowerCase_unit c =
     (let n = (of_char c :: nat)
      in if (65 \<le> n \<and> n \<le> 90) \<or> (192 \<le> n \<and> n \<le> 222 \<and> n \<noteq> 215)
         then char_of (n + 32) else c)"

definition toLowerCase :: "string \<Rightarrow> string" where
  "toLowerCase s = map toLowerCase_unit s"

text \<open>
  The relational operators of JavaScript on two strings: the lexicographic order of
  the code units. \<open>js_le a b\<close> is \<^verbatim>\<open>a <= b\<close>.
\<close>

fun js_le :: "string \<Rightarrow> string \<Rightarrow> bool" where
  "js_le [] b = True"
| "js_le (x # a) [] = False"
| "js_le (x # a) (y # b) = ((of_char x :: nat) < of_char y \<or> (x = y \<and> js_le a b))"

text \<open>
  \<^verbatim>\<open>
  interface FilterState { pattern: string; isActive: boolean; }
  class InteractiveFilter {
    private filterState: FilterState = { pattern: "", isActive: false };
  \<close>
  Beside the filter state the object writes to the terminal; \<open>stdout\<close> is the list of
  the strings passed to \<^verbatim>\<open>process.stdout.write\<close>, oldest first.
\<close>

record FilterState =
  pattern :: string
  isActive :: bool

record InteractiveFilter =
  filterState :: FilterState
  stdout :: "string list"

definition new_InteractiveFilter :: InteractiveFilter where
  "new_InteractiveFilter =
     \<lparr>filterState = \<lparr>pattern = [], isActive = False\<rparr>, stdout = []\<rparr>"

text \<open>The ANSI codes of \<^verbatim>\<open>colors\<close> that the filter uses.\<close>

definition ESC :: char where
  "ESC = CHR 0x1B"

definition colors_reset :: string where
  "colors_reset = ESC # ''[0m''"

definition colors_dim :: string where
  "colors_dim = ESC # ''[2m''"

definition colors_gray :: string where
  "colors_gray = ESC # ''[90m''"

definition stdout_write :: "string \<Rightarrow> InteractiveFilter \<Rightarrow> InteractiveFilter" where
  "stdout_write chunk f = f\<lparr>stdout := stdout f @ [chunk]\<rparr>"

text \<open>
  \<^verbatim>\<open>
  private updateStatusLine() {
    process.stdout.write("\r\x1b[K");
    if (this.filterState.isActive) {
      process.stdout.write(
        `${colors.gray}${colors.dim}filter: ${this.filterState.pattern}${colors.reset}`);
    }
  }
  \<close>
\<close>

definition updateStatusLine :: "InteractiveFilter \<Rightarrow> InteractiveFilter" where
  "updateStatusLine f =
     (let f1 = stdout_write (CHR 0x0D # ESC # ''[K'') f
      in if isActive (filterState f1)
         then stdout_write (colors_gray @ colors_dim @ ''filter: ''
                @ pattern (filterState f1) @ colors_reset) f1
         else f1)"

text \<open>
  \<^verbatim>\<open>
  private addToFilter(char: string) {
    this.filterState.pattern += char;
    this.filterState.isActive = true;
    this.updateStatusLine();
  }
  \<close>
\<close>

definition addToFilter :: "string \<Rightarrow> InteractiveFilter \<Rightarrow> InteractiveFilter" where
  "addToFilter char f =
     (let f1 = f\<lparr>filterState := (filterState f)\<lparr>pattern := pattern (filterState f) @ char\<rparr>\<rparr>;
          f2 = f1\<lparr>filterState := (filterState f1)\<lparr>isActive := True\<rparr>\<rparr>
      in updateStatusLine f2)"

text \<open>
  \<^verbatim>\<open>
  private handleBackspace() {
    if (this.filterState.pattern.length > 0) {
      this.filterState.pattern = this.filterState.pattern.slice(0, -1);
      if (this.filterState.pattern.length === 0) {
        this.filterState.isActive = false;
      }
      this.updateStatusLine();
    }
  }
  private handleDelete() { this.handleBackspace(); }
  \<close>
  \<^verbatim>\<open>slice(0, -1)\<close> drops the last code unit.
\<close>

definition handleBackspace :: "InteractiveFilter \<Rightarrow> InteractiveFilter" where
  "handleBackspace f =
     (if length (pattern (filterState f)) > 0
      then
        let f1 = f\<lparr>filterState := (filterState f)\<lparr>pattern := butlast (pattern (filterState f))\<rparr>\<rparr>;
            f2 = (if length (pattern (filterState f1)) = 0
                  then f1\<lparr>filterState := (filterState f1)\<lparr>isActive := False\<rparr>\<rparr>
                  else f1)
        in updateStatusLine f2
      else f)"

definition handleDelete :: "InteractiveFilter \<Rightarrow> InteractiveFilter" where
  "handleDelete f = handleBackspace f"

text \<open>
  \<^verbatim>\<open>
  private clearFilter() {
    this.filterState.pattern = "";
    this.filterState.isActive = false;
    this.updateStatusLine();
  }
  \<close>
\<close>

definition clearFilter :: "InteractiveFilter \<Rightarrow> InteractiveFilter" where
  "clearFilter f =
     updateStatusLine (f\<lparr>filterState := (filterState f)\<lparr>pattern := [], isActive := False\<rparr>\<rparr>)"

text \<open>
  \<^verbatim>\<open>
  private handleKeyPress(key: Buffer) {
    const keyStr = key.toString();
    if (keyStr === "\u0003") { this.cleanup(); process.exit(0); }
    else if (keyStr === "\u007f" || keyStr === "\b") { this.handleBackspace(); }
    else if (keyStr === "\u001b[3~") { this.handleDelete(); }
    else if (keyStr === "\u001b") { this.clearFilter(); }
    else if (keyStr.length === 1 && keyStr >= " " && keyStr <= "~") {
      this.addToFilter(keyStr);
    }
  }
  \<close>
  The argument of the model is the decoded \<^verbatim>\<open>keyStr\<close>. \<open>Inl code\<close> is the end of
  the process with that exit code (after \<^verbatim>\<open>cleanup()\<close>, which restores the terminal
  mode and closes the input and does not touch the filter state).
\<close>

definition handleKeyPress :: "string \<Rightarrow> InteractiveFilter \<Rightarrow> int + InteractiveFilter" where
  "handleKeyPress keyStr f =
     (if keyStr = [CHR 0x03] then Inl 0
      else if keyStr = [CHR 0x7F] \<or> keyStr = [CHR 0x08] then Inr (handleBackspace f)
      else if keyStr = ESC # ''[3~'' then Inr (handleDelete f)
      else if keyStr = [ESC] then Inr (clearFilter f)
      else if length keyStr = 1 \<and> js_le '' '' keyStr \<and> js_le keyStr ''~''
        then Inr (addToFilter keyStr f)
      else Inr f)"

text \<open>
  \<^verbatim>\<open>stdin.on("data", (key) => { this.handleKeyPress(key); })\<close>: the listener runs
  once for each chunk of input, in order, until the process ends.
\<close>

fun keystrokes :: "string list \<Rightarrow> InteractiveFilter \<Rightarrow> int + InteractiveFilter" where
  "keystrokes [] f = Inr f"
| "keystrokes (keyStr # rest) f =
     (case handleKeyPress keyStr f of
        Inl code \<Rightarrow> Inl code
      | Inr f' \<Rightarrow> keystrokes rest f')"

text \<open>
  \<^verbatim>\<open>
  shouldDimLine(message: string): boolean {
    if (!this.filterState.isActive || this.filterState.pattern === "") {
      return false;
    }
    return !message.toLowerCase().includes(this.filterState.pattern.toLowerCase());
  }
  \<close>
\<close>

definition shouldDimLine :: "string \<Rightarrow> InteractiveFilter \<Rightarrow> bool" where
  "shouldDimLine message f =
     (if \<not> isActive (filterState f) \<or> pattern (filterState f) = [] then False
      else \<not> includes_js (toLowerCase message) (toLowerCase (pattern (filterState f))))"

text \<open>
  The specification's notion, stated without the program's functions. The letters that
  have two cases, among the code units below 256, are the 26 letters of ASCII and the
  30 accented letters of Latin-1 (the capitals 0xC0 to 0xDE but for the multiplication
  sign 0xD7, the small letters 0xE0 to 0xFE but for the division sign 0xF7). The two
  lists name them in the same order, so that \<open>case_pairs\<close> pairs each capital with
  its small letter.
\<close>

definition upper_case_letters :: string where
  "upper_case_letters =
     ''ABCDEFGHIJKLMNOPQRSTUVWXYZ''
     @ [CHR 0xC0, CHR 0xC1, CHR 0xC2, CHR 0xC3, CHR 0xC4, CHR 0xC5, CHR 0xC6,
        CHR 0xC7, CHR 0xC8, CHR 0xC9, CHR 0xCA, CHR 0xCB, CHR 0xCC, CHR 0xCD,
        CHR 0xCE, CHR 0xCF, CHR 0xD0, CHR 0xD1, CHR 0xD2, CHR 0xD3, CHR 0xD4,
        CHR 0xD5, CHR 0xD6, CHR 0xD8, CHR 0xD9, CHR 0xDA, CHR 0xDB, CHR 0xDC,
        CHR 0xDD, CHR 0xDE]"

definition lower_case_letters :: string where
  "lower_case_letters =
     ''abcdefghijklmnopqrstuvwxyz''
     @ [CHR 0xE0, CHR 0xE1, CHR 0xE2, CHR 0xE3, CHR 0xE4, CHR 0xE5, CHR 0xE6,
        CHR 0xE7, CHR 0xE8, CHR 0xE9, CHR 0xEA, CHR 0xEB, CHR 0xEC, CHR 0xED,
        CHR 0xEE, CHR 0xEF, CHR 0xF0, CHR 0xF1, CHR 0xF2, CHR 0xF3, CHR 0xF4,
        CHR 0xF5, CHR 0xF6, CHR 0xF8, CHR 0xF9, CHR 0xFA, CHR 0xFB, CHR 0xFC,
        CHR 0xFD, CHR 0xFE]"

definition case_pairs :: "(char \<times> char) list" where
  "case_pairs = zip upper_case_letters lower_case_letters"

text \<open>
  Two characters are the same letter when they are equal or are the capital and the
  small form of one letter. \<open>p\<close> occurs in \<open>s\<close> as a case-insensitive substring
  when some substring of \<open>s\<close> has the length of \<open>p\<close> and at every position the
  same letter as \<open>p\<close>.
\<close>

definition same_letter :: "char \<Rightarrow> char \<Rightarrow> bool" where
  "same_letter a b = (a = b \<or> (a, b) \<in> set case_pairs \<or> (b, a) \<in> set case_pairs)"

definition equal_ignoring_case :: "string \<Rightarrow> string \<Rightarrow> bool" where
  "equal_ignoring_case w p = list_all2 same_letter w p"

definition contains_ignoring_case :: "string \<Rightarrow> string \<Rightarrow> bool" where
  "contains_ignoring_case s p = (\<exists>w. sublist w s \<and> equal_ignoring_case w p)"

text \<open>The invariant of the filter state: the activity flag agrees with the pattern.\<close>

definition flag_matches :: "InteractiveFilter \<Rightarrow> bool" where
  "flag_matches f = (isActive (filterState f) \<longleftrightarrow> pattern (filterState f) \<noteq> [])"

subsection \<open>The log source\<close>

text \<open>
  The client of the AWS SDK. Of \<^verbatim>\<open>FilteredLogEvent\<close> the program reads the two
  optional fields \<^verbatim>\<open>timestamp\<close> and \<^verbatim>\<open>message\<close>; of the response it reads
  \<^verbatim>\<open>events\<close> and \<^verbatim>\<open>nextToken\<close>, both optional. The request's own
  \<^verbatim>\<open>nextToken\<close> is the field \<open>request_nextToken\<close> here, since two records
  cannot share a field name.
\<close>

record FilteredLogEvent =
  timestamp :: "int option"
  message :: "string option"

record FilterLogEventsCommandInput =
  logGroupName :: string
  interleaved :: bool
  startTime :: int
  filterPattern :: "string option"
  limit :: int
  request_nextToken :: "string option"

record FilterLogEventsResponse =
  events :: "FilteredLogEvent list option"
  nextToken :: "string option"

text \<open>
  \<^verbatim>\<open>await client.send(new FilterLogEventsCommand(input))\<close> is an effect on the
  world outside the program: it takes the state \<open>'c\<close> of the source to a new state
  and either throws or returns a response.
\<close>

type_synonym 'c client =
  "FilterLogEventsCommandInput \<Rightarrow> 'c \<Rightarrow> (error + FilterLogEventsResponse) \<times> 'c"

text \<open>
  The truth value of a \<^verbatim>\<open>string | undefined\<close>: \<^verbatim>\<open>undefined\<close> and the empty
  string are falsy.
\<close>

definition truthy :: "string option \<Rightarrow> bool" where
  "truthy v = (case v of None \<Rightarrow> False | Some str \<Rightarrow> str \<noteq> [])"

text \<open>\<^verbatim>\<open>a ?? b\<close>\<close>

definition nullish :: "'a option \<Rightarrow> 'a \<Rightarrow> 'a" where
  "nullish a b = (case a of None \<Rightarrow> b | Some v \<Rightarrow> v)"

text \<open>
  \<^verbatim>\<open>Math.max(x, ...xs)\<close> with at least one argument: the arguments are folded
  from the left. (With no argument the result is \<open>-Infinity\<close>; both calls of the
  program stand under a test that the list is not empty.)
\<close>

definition Math_max :: "int \<Rightarrow> int list \<Rightarrow> int" where
  "Math_max x xs = fold max xs x"

subsection \<open>The bounded fetch\<close>

text \<open>
  \<^verbatim>\<open>
  async function fetchLogs(client, logGroupName, { filterPattern, startTime }) {
    const params = { logGroupName, interleaved: true, startTime, filterPattern,
                     limit: 10_000 };
    const events: FilteredLogEvent[] = [];
    let nextToken: string | undefined;
    do {
      const response = await client.send(
        new FilterLogEventsCommand({ ...params, nextToken }));
      if (response.events?.length) {
        events.push(...response.events);
      }
      nextToken = response.nextToken;
    } while (nextToken);
    return events;
  }
  \<close>
  The loop ends when the source stops handing out tokens, which the program cannot
  know in advance: the model is a partial function, \<open>None\<close> standing for a loop that
  never ends. One call of \<open>fetchLogs_loop\<close> is one run of the loop body followed by
  the test. A \<^verbatim>\<open>throw\<close> of the client leaves the function at once.
\<close>

definition fetchLogs_params :: "string \<Rightarrow> string option \<Rightarrow> int \<Rightarrow> FilterLogEventsCommandInput" where
  "fetchLogs_params logGroupName' filterPattern' startTime' =
     \<lparr>logGroupName = logGroupName', interleaved = True, startTime = startTime',
      filterPattern = filterPattern', limit = 10000, request_nextToken = None\<rparr>"

partial_function (option) fetchLogs_loop ::
  "'c client \<Rightarrow> FilterLogEventsCommandInput \<Rightarrow> FilteredLogEvent list \<Rightarrow> string option
     \<Rightarrow> 'c \<Rightarrow> ((error + FilteredLogEvent list) \<times> 'c) option"
where
  "fetchLogs_loop send params events_var nextToken_var c =
     (case send (params\<lparr>request_nextToken := nextToken_var\<rparr>) c of
        (Inl err, c') \<Rightarrow> Some (Inl err, c')
      | (Inr response, c') \<Rightarrow>
          (let events_var' = (case events response of
                                Some (e # es) \<Rightarrow> events_var @ (e # es)
                              | _ \<Rightarrow> events_var);
               nextToken_var' = nextToken response
           in if truthy nextToken_var'
              then fetchLogs_loop send params events_var' nextToken_var' c'
              else Some (Inr events_var', c')))"

definition fetchLogs ::
  "'c client \<Rightarrow> string \<Rightarrow> string option \<Rightarrow> int \<Rightarrow> 'c
     \<Rightarrow> ((error + FilteredLogEvent list) \<times> 'c) option"
where
  "fetchLogs send logGroupName' filterPattern' startTime' c =
     fetchLogs_loop send (fetchLogs_params logGroupName' filterPattern' startTime') [] None c"

text \<open>
  The specification's notion of a source whose responses form a finite chain of pages:
  asked with no token the source answers with the first page, asked with the token of a
  page it answers with the next one, and the last page carries no token to go on with.
  \<open>c\<close> is the state of the source before the first request and \<open>c_end\<close> its state
  after the last.
\<close>

fun page_chain ::
  "'c client \<Rightarrow> FilterLogEventsCommandInput \<Rightarrow> string option \<Rightarrow> 'c
     \<Rightarrow> FilterLogEventsResponse list \<Rightarrow> 'c \<Rightarrow> bool"
where
  "page_chain send params token c [] c_end = False"
| "page_chain send params token c (page # rest) c_end =
     (case send (params\<lparr>request_nextToken := token\<rparr>) c of
        (Inl err, c') \<Rightarrow> False
      | (Inr response, c') \<Rightarrow>
          response = page \<and>
          (if truthy (nextToken page)
           then page_chain send params (nextToken page) c' rest c_end
           else rest = [] \<and> c' = c_end))"

definition page_events :: "FilterLogEventsResponse \<Rightarrow> FilteredLogEvent list" where
  "page_events page = (case events page of None \<Rightarrow> [] | Some es \<Rightarrow> es)"

subsection \<open>The streaming fetch\<close>

text \<open>
  \<^verbatim>\<open>
  async function* streamLogs(client, logGroupName,
                             { filterPattern, pollMs, startTime }, interactiveFilter?) {
    let currentStartTime = startTime;
    while (true) {
      const params = { logGroupName, interleaved: true, startTime: currentStartTime,
                       filterPattern, limit: 10_000 };
      const { events } = await client.send(new FilterLogEventsCommand(params));
      if (events?.length) {
        currentStartTime = Math.max(...events.map((e) => e.timestamp ?? 0)) + 1;
        for (const event of events) {
          yield event;
        }
      }
      await new Promise((r) => setTimeout(r, pollMs));
    }
  }
  \<close>
  The state of the generator is its variable \<open>currentStartTime\<close>. What it does to
  the outside is a request to the source, an event handed to the consumer, or a sleep;
  \<open>trace\<close> lists these effects, oldest first, each with the value that
  \<open>currentStartTime\<close> had when the effect took place.
\<close>

datatype effect =
  Send FilterLogEventsCommandInput
| Yield FilteredLogEvent
| Sleep int

record stream_state =
  currentStartTime :: int
  trace :: "(int \<times> effect) list"

definition perform :: "effect \<Rightarrow> stream_state \<Rightarrow> stream_state" where
  "perform eff s = s\<lparr>trace := trace s @ [(currentStartTime s, eff)]\<rparr>"

definition stream_params :: "string \<Rightarrow> string option \<Rightarrow> int \<Rightarrow> FilterLogEventsCommandInput" where
  "stream_params logGroupName' filterPattern' currentStartTime' =
     \<lparr>logGroupName = logGroupName', interleaved = True, startTime = currentStartTime',
      filterPattern = filterPattern', limit = 10000, request_nextToken = None\<rparr>"

text \<open>
  One run of the body of \<^verbatim>\<open>while (true)\<close>. A \<^verbatim>\<open>throw\<close> of the client ends
  the generator.
\<close>

definition stream_iteration ::
  "'c client \<Rightarrow> string \<Rightarrow> string option \<Rightarrow> int \<Rightarrow> stream_state \<times> 'c
     \<Rightarrow> error + stream_state \<times> 'c"
where
  "stream_iteration send logGroupName' filterPattern' pollMs sc =
     (let s = fst sc;
          params = stream_params logGroupName' filterPattern' (currentStartTime s);
          s1 = perform (Send params) s
      in case send params (snd sc) of
           (Inl err, c') \<Rightarrow> Inl err
         | (Inr response, c') \<Rightarrow>
             (let s2 = (case events response of
                          Some (e # es) \<Rightarrow>
                            fold (\<lambda>event. perform (Yield event)) (e # es)
                              (s1\<lparr>currentStartTime :=
                                   Math_max (nullish (timestamp e) 0)
                                     (map (\<lambda>e. nullish (timestamp e) 0) es) + 1\<rparr>)
                        | _ \<Rightarrow> s1)
              in Inr (perform (Sleep pollMs) s2, c')))"

text \<open>
  The loop has no exit. \<open>stream_loop n\<close> is its first \<open>n\<close> iterations, and
  \<open>streamLogs n\<close> those iterations from the generator's initial state.
\<close>

fun stream_loop ::
  "nat \<Rightarrow> 'c client \<Rightarrow> string \<Rightarrow> string option \<Rightarrow> int \<Rightarrow> stream_state \<times> 'c
     \<Rightarrow> error + stream_state \<times> 'c"
where
  "stream_loop 0 send logGroupName' filterPattern' pollMs sc = Inr sc"
| "stream_loop (Suc n) send logGroupName' filterPattern' pollMs sc =
     (case stream_iteration send logGroupName' filterPattern' pollMs sc of
        Inl err \<Rightarrow> Inl err
      | Inr sc' \<Rightarrow> stream_loop n send logGroupName' filterPattern' pollMs sc')"

definition streamLogs ::
  "nat \<Rightarrow> 'c client \<Rightarrow> string \<Rightarrow> string option \<Rightarrow> int \<Rightarrow> int \<Rightarrow> 'c
     \<Rightarrow> error + stream_state \<times> 'c"
where
  "streamLogs n send logGroupName' filterPattern' pollMs startTime' c =
     stream_loop n send logGroupName' filterPattern' pollMs
       (\<lparr>currentStartTime = startTime', trace = []\<rparr>, c)"

text \<open>
  The contract of the source that the cursor relies on: a batch that is not empty holds
  an event whose timestamp (an absent one read as 0) is not below the start time that
  was asked for. A source that returns only events at or after the requested start
  time satisfies it.
\<close>

definition batch_reaches :: "int \<Rightarrow> FilterLogEventsResponse \<Rightarrow> bool" where
  "batch_reaches start response =
     (case events response of
        Some (e # es) \<Rightarrow> list_ex (\<lambda>e'. start \<le> nullish (timestamp e') 0) (e # es)
      | _ \<Rightarrow> True)"

text \<open>
  The latest timestamp of a batch, an absent timestamp read as 0 as the program reads
  it.
\<close>

definition latest_timestamp :: "FilteredLogEvent list \<Rightarrow> int" where
  "latest_timestamp evs = Max ((\<lambda>e. nullish (timestamp e) 0) ` set evs)"

definition honours_startTime :: "'c client \<Rightarrow> bool" where
  "honours_startTime send =
     (\<forall>input c response c'.
        send input c = (Inr response, c') \<longrightarrow> batch_reaches (startTime input) response)"

subsection \<open>Sources for the examples\<close>

text \<open>A source that answers every request with the same response.\<close>

definition constant_source :: "FilterLogEventsResponse \<Rightarrow> 'c client" where
  "constant_source response = (\<lambda>input c. (Inr response, c))"

text \<open>
  A source that counts the requests and answers the request number \<open>c\<close> with one event
  stamped \<open>c\<close> milliseconds after the requested start time.
\<close>

definition source_ahead :: "nat client" where
  "source_ahead =
     (\<lambda>input c.
        (Inr \<lparr>events = Some [\<lparr>timestamp = Some (startTime input + int c), message = None\<rparr>],
              nextToken = None\<rparr>,
         Suc c))"

text \<open>
  A source that counts the requests and answers the first with an event stamped 2000
  and every later one with an event that has no timestamp.
\<close>

definition source_unstamped :: "nat client" where
  "source_unstamped =
     (\<lambda>input c.
        (Inr \<lparr>events = Some [\<lparr>timestamp = (if c = 0 then Some 2000 else None),
                               message = Some ''line''\<rparr>],
              nextToken = None\<rparr>,
         Suc c))"

text \<open>
  A source of three pages that counts the requests: asked with no token it answers
  with two events and the token \<open>t1\<close>, asked with \<open>t1\<close> with no events and the
  token \<open>t2\<close>, asked with \<open>t2\<close> with one event and no token. Any other token is
  an error.
\<close>

definition source_three_pages :: "nat client" where
  "source_three_pages =
     (\<lambda>input c.
        (case request_nextToken input of
           None \<Rightarrow>
             Inr \<lparr>events = Some [\<lparr>timestamp = Some 10, message = Some ''a''\<rparr>,
                                  \<lparr>timestamp = Some 30, message = Some ''b''\<rparr>],
                  nextToken = Some ''t1''\<rparr>
         | Some token \<Rightarrow>
             if token = ''t1'' then Inr \<lparr>events = None, nextToken = Some ''t2''\<rparr>
             else if token = ''t2''
               then Inr \<lparr>events = Some [\<lparr>timestamp = Some 20, message = Some ''c''\<rparr>],
                         nextToken = None\<rparr>
             else Inl (Error ''InvalidParameterException''),
         Suc c))"

section \<open>Properties\<close>

subsection \<open>Strings\<close>

lemma includes_sublist: "includes_js s p \<longleftrightarrow> sublist p s"
  by (induction s) (auto simp: sublist_Cons_right)

subsection \<open>The level tag\<close>

text \<open>
  C6: for every raw message the level classifier returns the tag of the first marker,
  in the order ERROR, WARN, INFO, DEBUG, "START RequestId:", "END RequestId:",
  "REPORT RequestId:", "INIT_START", that occurs in the message as a substring, and the
  blank tag when none occurs. The result is always one of the nine tags, and a message
  that contains ERROR gets the ERROR tag whether or not it also contains WARN.
\<close>

theorem extractLogLevel_priority:
  "extractLogLevel msg = first_match_tag msg
   \<and> extractLogLevel msg \<in> set (map snd level_priority) \<union> {''   ''}
   \<and> (sublist ''ERROR'' msg \<longrightarrow> extractLogLevel msg = ''ERR'')"
  by (simp add: extractLogLevel_def first_match_tag_def level_priority_def includes_sublist)

theorem extractLogLevel_priority_witness:
  "sublist ''ERROR'' ''WARN: retry after ERROR''
   \<and> sublist ''WARN'' ''WARN: retry after ERROR''
   \<and> extractLogLevel ''WARN: retry after ERROR'' = ''ERR''
   \<and> first_match_tag ''WARN: retry after ERROR'' = ''ERR''"
proof -
  have e: "sublist ''ERROR'' ''WARN: retry after ERROR''"
    by (simp add: includes_sublist [symmetric])
  have w: "sublist ''WARN'' ''WARN: retry after ERROR''"
    by (simp add: includes_sublist [symmetric])
  note t = extractLogLevel_priority [of "''WARN: retry after ERROR''"]
  from t e have r: "extractLogLevel ''WARN: retry after ERROR'' = ''ERR''"
    by blast
  from t have "first_match_tag ''WARN: retry after ERROR''
      = extractLogLevel ''WARN: retry after ERROR''"
    by simp
  with r e w show ?thesis by simp
qed

subsection \<open>The interactive filter\<close>

text \<open>The program's \<open>toLowerCase_unit\<close> against the table of the letters.\<close>

lemma toLowerCase_upper_case_letters:
  "map toLowerCase_unit upper_case_letters = lower_case_letters"
  by code_simp

lemma toLowerCase_lower_case_letters:
  "map toLowerCase_unit lower_case_letters = lower_case_letters"
  by code_simp

lemma upper_case_letters_codes:
  "upper_case_letters = map char_of ([65..<91] @ [192..<215] @ [216..<223] :: nat list)"
  by code_simp

lemma distinct_lower_case_letters: "distinct lower_case_letters"
  by code_simp

lemma length_case_letters: "length upper_case_letters = length lower_case_letters"
  by code_simp

lemma toLowerCase_unit_no_capital:
  assumes "c \<notin> set upper_case_letters"
  shows "toLowerCase_unit c = c"
proof -
  let ?n = "of_char c :: nat"
  have "\<not> ((65 \<le> ?n \<and> ?n \<le> 90) \<or> (192 \<le> ?n \<and> ?n \<le> 222 \<and> ?n \<noteq> 215))"
  proof
    assume "(65 \<le> ?n \<and> ?n \<le> 90) \<or> (192 \<le> ?n \<and> ?n \<le> 222 \<and> ?n \<noteq> 215)"
    then have "?n \<in> {65..<91} \<union> ({192..<215} \<union> {216..<223})"
      by (simp only: Un_iff atLeastLessThan_iff) linarith
    then have "?n \<in> set ([65..<91] @ [192..<215] @ [216..<223])"
      by (simp only: set_append set_upt)
    then have "char_of ?n \<in> set upper_case_letters"
      unfolding upper_case_letters_codes by (simp only: set_map image_eqI)
    with assms show False
      by simp
  qed
  then show ?thesis
    unfolding toLowerCase_unit_def Let_def by (rule if_not_P)
qed

lemma case_pairs_nth:
  "(u, l) \<in> set case_pairs \<longleftrightarrow>
     (\<exists>i<length upper_case_letters. u = upper_case_letters ! i \<and> l = lower_case_letters ! i)"
  unfolding case_pairs_def in_set_zip using length_case_letters by auto

lemma toLowerCase_unit_pair:
  assumes "(u, l) \<in> set case_pairs"
  shows "toLowerCase_unit u = l" and "toLowerCase_unit l = l"
proof -
  from assms obtain i where i: "i < length upper_case_letters"
    and u: "u = upper_case_letters ! i" and l: "l = lower_case_letters ! i"
    unfolding case_pairs_nth by blast
  from i have i': "i < length lower_case_letters"
    by (simp only: length_case_letters)
  from i have "toLowerCase_unit u = map toLowerCase_unit upper_case_letters ! i"
    by (simp add: u)
  then show "toLowerCase_unit u = l"
    by (simp only: toLowerCase_upper_case_letters l)
  from i' have "toLowerCase_unit l = map toLowerCase_unit lower_case_letters ! i"
    by (simp add: l)
  then show "toLowerCase_unit l = l"
    by (simp only: toLowerCase_lower_case_letters l)
qed

lemma capital_has_pair:
  assumes "u \<in> set upper_case_letters"
  shows "\<exists>l. (u, l) \<in> set case_pairs"
proof -
  from assms obtain i where "i < length upper_case_letters" "u = upper_case_letters ! i"
    by (auto simp: in_set_conv_nth)
  then show ?thesis
    unfolding case_pairs_nth by blast
qed

lemma case_pairs_same_small:
  assumes "(u, l) \<in> set case_pairs" and "(u', l) \<in> set case_pairs"
  shows "u = u'"
proof -
  from assms obtain i j where i: "i < length upper_case_letters"
    "u = upper_case_letters ! i" "l = lower_case_letters ! i"
    and j: "j < length upper_case_letters"
    "u' = upper_case_letters ! j" "l = lower_case_letters ! j"
    unfolding case_pairs_nth by blast
  from i(1) j(1) have "i < length lower_case_letters" "j < length lower_case_letters"
    by (simp_all only: length_case_letters)
  moreover from i(3) j(3) have "lower_case_letters ! i = lower_case_letters ! j"
    by simp
  ultimately have "i = j"
    using distinct_lower_case_letters by (simp add: nth_eq_iff_index_eq)
  with i(2) j(2) show ?thesis
    by simp
qed

lemma same_letter_toLowerCase_unit:
  "same_letter a b \<longleftrightarrow> toLowerCase_unit a = toLowerCase_unit b"
proof
  assume "same_letter a b"
  then consider "a = b" | "(a, b) \<in> set case_pairs" | "(b, a) \<in> set case_pairs"
    unfolding same_letter_def by blast
  then show "toLowerCase_unit a = toLowerCase_unit b"
  proof cases
    case 1
    then show ?thesis by simp
  next
    case 2
    from toLowerCase_unit_pair [OF this] show ?thesis by simp
  next
    case 3
    from toLowerCase_unit_pair [OF this] show ?thesis by simp
  qed
next
  assume eq: "toLowerCase_unit a = toLowerCase_unit b"
  show "same_letter a b"
  proof (cases "a \<in> set upper_case_letters")
    case True
    then obtain l where al: "(a, l) \<in> set case_pairs"
      using capital_has_pair by blast
    then have la: "toLowerCase_unit a = l"
      by (rule toLowerCase_unit_pair)
    show ?thesis
    proof (cases "b \<in> set upper_case_letters")
      case True
      then obtain l' where bl: "(b, l') \<in> set case_pairs"
        using capital_has_pair by blast
      then have "toLowerCase_unit b = l'"
        by (rule toLowerCase_unit_pair)
      with eq la bl have "(b, l) \<in> set case_pairs"
        by simp
      with al have "a = b"
        by (rule case_pairs_same_small)
      then show ?thesis
        by (simp add: same_letter_def)
    next
      case False
      then have "toLowerCase_unit b = b"
        by (rule toLowerCase_unit_no_capital)
      with eq la al have "(a, b) \<in> set case_pairs"
        by simp
      then show ?thesis
        by (simp add: same_letter_def)
    qed
  next
    case False
    then have a: "toLowerCase_unit a = a"
      by (rule toLowerCase_unit_no_capital)
    show ?thesis
    proof (cases "b \<in> set upper_case_letters")
      case True
      then obtain l where bl: "(b, l) \<in> set case_pairs"
        using capital_has_pair by blast
      then have "toLowerCase_unit b = l"
        by (rule toLowerCase_unit_pair)
      with eq a bl have "(b, a) \<in> set case_pairs"
        by simp
      then show ?thesis
        by (simp add: same_letter_def)
    next
      case False
      then have "toLowerCase_unit b = b"
        by (rule toLowerCase_unit_no_capital)
      with eq a show ?thesis
        by (simp add: same_letter_def)
    qed
  qed
qed

lemma equal_ignoring_case_toLowerCase:
  "equal_ignoring_case w p \<longleftrightarrow> toLowerCase w = toLowerCase p"
  unfolding equal_ignoring_case_def toLowerCase_def
  by (induction w arbitrary: p) (auto simp: list_all2_Cons1 same_letter_toLowerCase_unit)

lemma sublist_map_iff:
  "sublist (map g p) (map g s) \<longleftrightarrow> (\<exists>w. sublist w s \<and> map g w = map g p)"
proof
  assume "sublist (map g p) (map g s)"
  then obtain ps ss where "map g s = ps @ map g p @ ss"
    by (auto simp: sublist_def)
  then obtain a b c where "s = a @ b @ c" "map g b = map g p"
    by (auto simp: map_eq_append_conv append_eq_map_conv)
  then show "\<exists>w. sublist w s \<and> map g w = map g p"
    by (auto simp: sublist_def)
next
  assume "\<exists>w. sublist w s \<and> map g w = map g p"
  then obtain w ps ss where "s = ps @ w @ ss" "map g w = map g p"
    by (auto simp: sublist_def)
  then have "map g s = map g ps @ map g p @ map g ss"
    by simp
  then show "sublist (map g p) (map g s)"
    unfolding sublist_def by blast
qed

lemma contains_ignoring_case_includes:
  "contains_ignoring_case s p \<longleftrightarrow> includes_js (toLowerCase s) (toLowerCase p)"
  unfolding contains_ignoring_case_def includes_sublist equal_ignoring_case_toLowerCase
  by (simp add: toLowerCase_def sublist_map_iff)

text \<open>
  From the table alone: \<open>TIMEOUT\<close> in capitals is the pattern \<open>timeout\<close> up to
  case, so the pattern occurs in the message "Connection TIMEOUT after 30s"; and a
  character that is no letter, or another letter, is not the same letter.
\<close>

lemma capitals_contain_pattern:
  "contains_ignoring_case ''Connection TIMEOUT after 30s'' ''timeout''"
proof -
  have "sublist ''TIMEOUT'' ''Connection TIMEOUT after 30s''"
    by (simp add: includes_sublist [symmetric])
  moreover have "equal_ignoring_case ''TIMEOUT'' ''timeout''"
    by (simp add: equal_ignoring_case_def same_letter_def case_pairs_def
        upper_case_letters_def lower_case_letters_def)
  ultimately show ?thesis
    unfolding contains_ignoring_case_def by blast
qed

lemma other_letters_differ:
  "\<not> same_letter CHR ''T'' CHR ''i'' \<and> \<not> same_letter CHR ''1'' CHR ''Q''
   \<and> same_letter CHR ''q'' CHR ''Q''"
  by (simp add: same_letter_def case_pairs_def upper_case_letters_def
      lower_case_letters_def)

text \<open>
  C5: for every filter state and raw message, the dim decision is true if and only if
  the filter is active, the pattern is not empty, and the raw message does not contain
  the pattern as a case-insensitive substring: no substring of the message has, position
  by position, the same letters as the pattern.
\<close>

theorem shouldDimLine_iff:
  "shouldDimLine msg f \<longleftrightarrow>
     isActive (filterState f) \<and> pattern (filterState f) \<noteq> []
     \<and> \<not> contains_ignoring_case msg (pattern (filterState f))"
  by (simp add: shouldDimLine_def contains_ignoring_case_includes)

text \<open>
  The two lines of the specification, with the pattern "timeout" active: the message
  "Connection timeout after 30s" is not dimmed and the message "OK" is dimmed. And the
  case of the letters does not matter: the message "Connection TIMEOUT after 30s",
  which contains the pattern by the table of the letters, is not dimmed either, nor
  is the first message under the pattern "TimeOut".
\<close>

theorem shouldDimLine_iff_witness:
  "\<not> shouldDimLine ''Connection timeout after 30s''
       \<lparr>filterState = \<lparr>pattern = ''timeout'', isActive = True\<rparr>, stdout = []\<rparr>
   \<and> contains_ignoring_case ''Connection timeout after 30s'' ''timeout''
   \<and> shouldDimLine ''OK''
       \<lparr>filterState = \<lparr>pattern = ''timeout'', isActive = True\<rparr>, stdout = []\<rparr>
   \<and> \<not> contains_ignoring_case ''OK'' ''timeout''
   \<and> contains_ignoring_case ''Connection TIMEOUT after 30s'' ''timeout''
   \<and> \<not> shouldDimLine ''Connection TIMEOUT after 30s''
       \<lparr>filterState = \<lparr>pattern = ''timeout'', isActive = True\<rparr>, stdout = []\<rparr>
   \<and> \<not> shouldDimLine ''Connection timeout after 30s''
       \<lparr>filterState = \<lparr>pattern = ''TimeOut'', isActive = True\<rparr>, stdout = []\<rparr>
   \<and> contains_ignoring_case ''Connection timeout after 30s'' ''TimeOut''"
proof -
  let ?f = "\<lparr>filterState = \<lparr>pattern = ''timeout'', isActive = True\<rparr>, stdout = []\<rparr>"
  let ?g = "\<lparr>filterState = \<lparr>pattern = ''TimeOut'', isActive = True\<rparr>, stdout = []\<rparr>"
  have a: "\<not> shouldDimLine ''Connection timeout after 30s'' ?f"
    by code_simp
  have b: "shouldDimLine ''OK'' ?f"
    by code_simp
  from a shouldDimLine_iff [of "''Connection timeout after 30s''" ?f]
  have c: "contains_ignoring_case ''Connection timeout after 30s'' ''timeout''"
    by simp
  from b shouldDimLine_iff [of "''OK''" ?f]
  have d: "\<not> contains_ignoring_case ''OK'' ''timeout''"
    by simp
  from capitals_contain_pattern shouldDimLine_iff [of "''Connection TIMEOUT after 30s''" ?f]
  have e: "\<not> shouldDimLine ''Connection TIMEOUT after 30s'' ?f"
    by simp
  have g: "\<not> shouldDimLine ''Connection timeout after 30s'' ?g"
    by code_simp
  from g shouldDimLine_iff [of "''Connection timeout after 30s''" ?g]
  have h: "contains_ignoring_case ''Connection timeout after 30s'' ''TimeOut''"
    by simp
  from a b c d e g h capitals_contain_pattern show ?thesis
    by blast
qed

lemma filterState_updateStatusLine: "filterState (updateStatusLine f) = filterState f"
  by (simp add: updateStatusLine_def stdout_write_def Let_def)

lemma flag_addToFilter: "char \<noteq> [] \<Longrightarrow> flag_matches (addToFilter char f)"
  by (simp add: flag_matches_def addToFilter_def filterState_updateStatusLine Let_def)

lemma flag_handleBackspace: "flag_matches f \<Longrightarrow> flag_matches (handleBackspace f)"
  by (simp add: flag_matches_def handleBackspace_def filterState_updateStatusLine Let_def)

lemma flag_clearFilter: "flag_matches (clearFilter f)"
  by (simp add: flag_matches_def clearFilter_def filterState_updateStatusLine)

lemma flag_handleKeyPress:
  "flag_matches f \<Longrightarrow> handleKeyPress keyStr f = Inr f' \<Longrightarrow> flag_matches f'"
  by (auto simp: handleKeyPress_def handleDelete_def flag_handleBackspace
      flag_clearFilter split: if_splits intro!: flag_addToFilter)

lemma flag_keystrokes:
  "flag_matches f \<Longrightarrow> keystrokes keys f = Inr f' \<Longrightarrow> flag_matches f'"
proof (induction keys arbitrary: f)
  case Nil
  then show ?case by simp
next
  case (Cons k keys)
  then show ?case
    by (auto split: sum.splits dest: flag_handleKeyPress)
qed

lemma flag_new: "flag_matches new_InteractiveFilter"
  by (simp add: flag_matches_def new_InteractiveFilter_def)

lemma handleBackspace_empty: "pattern (filterState f) = [] \<Longrightarrow> handleBackspace f = f"
  by (simp add: handleBackspace_def)

text \<open>
  C8: after every sequence of keystrokes from the initial state that leaves the process
  running, the activity flag of the filter state equals (pattern not empty). Whenever the
  pattern is empty then, and in the initial state in particular, backspace and delete
  change nothing at all (neither the filter state nor the terminal), return normally
  and leave the filter inactive.
\<close>

theorem filter_activity_flag:
  "(keystrokes keys new_InteractiveFilter = Inr f \<longrightarrow>
      (isActive (filterState f) \<longleftrightarrow> pattern (filterState f) \<noteq> [])
      \<and> (pattern (filterState f) = [] \<longrightarrow>
           handleBackspace f = f \<and> handleDelete f = f
           \<and> handleKeyPress [CHR 0x7F] f = Inr f \<and> handleKeyPress [CHR 0x08] f = Inr f
           \<and> handleKeyPress (ESC # ''[3~'') f = Inr f
           \<and> \<not> isActive (filterState f)))
   \<and> handleBackspace new_InteractiveFilter = new_InteractiveFilter
   \<and> handleKeyPress [CHR 0x7F] new_InteractiveFilter = Inr new_InteractiveFilter
   \<and> \<not> isActive (filterState new_InteractiveFilter)
   \<and> pattern (filterState new_InteractiveFilter) = []"
proof -
  have "flag_matches f" if "keystrokes keys new_InteractiveFilter = Inr f"
    using flag_keystrokes [OF flag_new that] .
  moreover have "pattern (filterState new_InteractiveFilter) = []"
    and "\<not> isActive (filterState new_InteractiveFilter)"
    by (simp_all add: new_InteractiveFilter_def)
  ultimately show ?thesis
    by (auto simp: flag_matches_def handleBackspace_empty handleKeyPress_def
        handleDelete_def ESC_def)
qed

text \<open>
  A run: the key \<open>a\<close>, then backspace twice. The second backspace meets an empty
  pattern.
\<close>

theorem filter_activity_flag_witness:
  "keystrokes [''a'', [CHR 0x7F], [CHR 0x7F]] new_InteractiveFilter
     = Inr \<lparr>filterState = \<lparr>pattern = [], isActive = False\<rparr>,
            stdout = [CHR 0x0D # ESC # ''[K'',
                      colors_gray @ colors_dim @ ''filter: a'' @ colors_reset,
                      CHR 0x0D # ESC # ''[K'']\<rparr>
   \<and> keystrokes [''a'', [CHR 0x7F]] new_InteractiveFilter
     = keystrokes [''a'', [CHR 0x7F], [CHR 0x7F]] new_InteractiveFilter
   \<and> handleBackspace
       \<lparr>filterState = \<lparr>pattern = [], isActive = False\<rparr>,
        stdout = [CHR 0x0D # ESC # ''[K'',
                  colors_gray @ colors_dim @ ''filter: a'' @ colors_reset,
                  CHR 0x0D # ESC # ''[K'']\<rparr>
     = \<lparr>filterState = \<lparr>pattern = [], isActive = False\<rparr>,
        stdout = [CHR 0x0D # ESC # ''[K'',
                  colors_gray @ colors_dim @ ''filter: a'' @ colors_reset,
                  CHR 0x0D # ESC # ''[K'']\<rparr>"
proof -
  let ?f = "\<lparr>filterState = \<lparr>pattern = [], isActive = False\<rparr>,
             stdout = [CHR 0x0D # ESC # ''[K'',
                       colors_gray @ colors_dim @ ''filter: a'' @ colors_reset,
                       CHR 0x0D # ESC # ''[K'']\<rparr>"
  have run: "keystrokes [''a'', [CHR 0x7F], [CHR 0x7F]] new_InteractiveFilter = Inr ?f"
    by code_simp
  have run': "keystrokes [''a'', [CHR 0x7F]] new_InteractiveFilter = Inr ?f"
    by code_simp
  have "pattern (filterState ?f) = []"
    by simp
  with run filter_activity_flag [of "[''a'', [CHR 0x7F], [CHR 0x7F]]" ?f]
  have "handleBackspace ?f = ?f"
    by blast
  with run run' show ?thesis
    by simp
qed

subsection \<open>The streaming fetch\<close>

lemma Math_max_Max: "Math_max x xs = Max (set (x # xs))"
  by (simp only: Math_max_def Max.set_eq_fold)

lemma Math_max_latest:
  "Math_max (nullish (timestamp e) 0) (map (\<lambda>e. nullish (timestamp e) 0) es)
     = latest_timestamp (e # es)"
proof -
  have "set (nullish (timestamp e) 0 # map (\<lambda>e. nullish (timestamp e) 0) es)
      = (\<lambda>e. nullish (timestamp e) 0) ` set (e # es)"
    by simp
  then show ?thesis
    by (simp only: Math_max_Max latest_timestamp_def)
qed

lemma latest_timestamp_ge:
  "e \<in> set evs \<Longrightarrow> nullish (timestamp e) 0 \<le> latest_timestamp evs"
  by (simp add: latest_timestamp_def)

lemma latest_timestamp_unstamped:
  assumes "evs \<noteq> []" and "\<forall>e\<in>set evs. timestamp e = None"
  shows "latest_timestamp evs = 0"
proof -
  from assms have "(\<lambda>e. nullish (timestamp e) 0) ` set evs = {0}"
    by (cases evs) (auto simp: nullish_def)
  then show ?thesis
    by (simp add: latest_timestamp_def)
qed

lemma fold_perform_Yield:
  "fold (\<lambda>event. perform (Yield event)) evs s
     = s\<lparr>trace := trace s @ map (\<lambda>event. (currentStartTime s, Yield event)) evs\<rparr>"
  by (induction evs arbitrary: s) (simp_all add: perform_def)

lemma stream_iteration_nonempty:
  assumes "send (stream_params lg fp (currentStartTime s)) c = (Inr response, c')"
    and "events response = Some evs" and "evs \<noteq> []"
  shows "stream_iteration send lg fp pollMs (s, c) =
     Inr (\<lparr>currentStartTime = latest_timestamp evs + 1,
           trace = trace s
             @ [(currentStartTime s, Send (stream_params lg fp (currentStartTime s)))]
             @ map (\<lambda>e. (latest_timestamp evs + 1, Yield e)) evs
             @ [(latest_timestamp evs + 1, Sleep pollMs)]\<rparr>, c')"
proof -
  obtain e es where evs: "evs = e # es"
    using assms(3) by (cases evs) auto
  show ?thesis
    using assms(1,2) unfolding evs
    by (simp add: stream_iteration_def Let_def fold_perform_Yield perform_def
        Math_max_latest)
qed

lemma stream_iteration_empty:
  assumes "send (stream_params lg fp (currentStartTime s)) c = (Inr response, c')"
    and "events response = None \<or> events response = Some []"
  shows "stream_iteration send lg fp pollMs (s, c) =
     Inr (s\<lparr>trace := trace s
              @ [(currentStartTime s, Send (stream_params lg fp (currentStartTime s))),
                 (currentStartTime s, Sleep pollMs)]\<rparr>, c')"
  using assms
  by (auto simp: stream_iteration_def Let_def perform_def)

lemma stream_iteration_error:
  assumes "send (stream_params lg fp (currentStartTime s)) c = (Inl err, c')"
  shows "stream_iteration send lg fp pollMs (s, c) = Inl err"
  using assms by (simp add: stream_iteration_def Let_def)

lemma stream_iteration_mono:
  assumes h: "honours_startTime send"
    and it: "stream_iteration send lg fp pollMs (s, c) = Inr (s', c')"
  shows "currentStartTime s \<le> currentStartTime s'"
proof -
  obtain r c1 where snd: "send (stream_params lg fp (currentStartTime s)) c = (r, c1)"
    by (cases "send (stream_params lg fp (currentStartTime s)) c") auto
  show ?thesis
  proof (cases r)
    case (Inl err)
    with snd it show ?thesis
      by (simp add: stream_iteration_error)
  next
    case (Inr response)
    with snd
    have sr: "send (stream_params lg fp (currentStartTime s)) c = (Inr response, c1)"
      by simp
    from h sr have br: "batch_reaches (currentStartTime s) response"
      unfolding honours_startTime_def by (fastforce simp: stream_params_def)
    show ?thesis
    proof (cases "events response = None \<or> events response = Some []")
      case True
      from sr True have "stream_iteration send lg fp pollMs (s, c)
          = Inr (s\<lparr>trace := trace s
              @ [(currentStartTime s, Send (stream_params lg fp (currentStartTime s))),
                 (currentStartTime s, Sleep pollMs)]\<rparr>, c1)"
        by (rule stream_iteration_empty)
      with it show ?thesis by auto
    next
      case False
      then obtain evs where evs: "events response = Some evs" "evs \<noteq> []"
        by auto
      from br evs obtain e
        where "e \<in> set evs" "currentStartTime s \<le> nullish (timestamp e) 0"
        by (cases evs) (auto simp: batch_reaches_def list_ex_iff)
      with latest_timestamp_ge [of e evs]
      have "currentStartTime s \<le> latest_timestamp evs"
        by linarith
      moreover from sr evs have "stream_iteration send lg fp pollMs (s, c) =
         Inr (\<lparr>currentStartTime = latest_timestamp evs + 1,
           trace = trace s
             @ [(currentStartTime s, Send (stream_params lg fp (currentStartTime s)))]
             @ map (\<lambda>e. (latest_timestamp evs + 1, Yield e)) evs
             @ [(latest_timestamp evs + 1, Sleep pollMs)]\<rparr>, c1)"
        by (rule stream_iteration_nonempty)
      ultimately show ?thesis
        using it by auto
    qed
  qed
qed

lemma stream_loop_Suc:
  "stream_loop (Suc n) send lg fp pollMs sc =
     (case stream_loop n send lg fp pollMs sc of
        Inl err \<Rightarrow> Inl err
      | Inr sc' \<Rightarrow> stream_iteration send lg fp pollMs sc')"
proof (induction n arbitrary: sc)
  case 0
  show ?case by (simp split: sum.splits)
next
  case (Suc n)
  show ?case
  proof (cases "stream_iteration send lg fp pollMs sc")
    case (Inl err)
    then show ?thesis by simp
  next
    case (Inr sc')
    have "stream_loop (Suc (Suc n)) send lg fp pollMs sc
        = stream_loop (Suc n) send lg fp pollMs sc'"
      using Inr by simp
    also have "\<dots> = (case stream_loop n send lg fp pollMs sc' of
        Inl err \<Rightarrow> Inl err
      | Inr sc'' \<Rightarrow> stream_iteration send lg fp pollMs sc'')"
      by (rule Suc.IH)
    also have "\<dots> = (case stream_loop (Suc n) send lg fp pollMs sc of
        Inl err \<Rightarrow> Inl err
      | Inr sc'' \<Rightarrow> stream_iteration send lg fp pollMs sc'')"
      using Inr by simp
    finally show ?thesis .
  qed
qed

lemma honours_source_ahead: "honours_startTime source_ahead"
  by (auto simp: honours_startTime_def source_ahead_def batch_reaches_def nullish_def)

text \<open>
  C1: in one iteration of the streaming loop whose poll returns a batch that is not
  empty, the cursor becomes the maximum of the batch's timestamps (an absent one read as
  0) plus 1, and every event of the batch is handed downstream, in the order received,
  when the cursor already has that value: the iteration's effects are the request with
  the old cursor, then the events with the new one, then the sleep. The maximum is
  taken over the set of the batch's events, so the order within the batch does not
  matter.
\<close>

theorem cursor_set_before_emit:
  assumes "send (stream_params lg fp (currentStartTime s)) c = (Inr response, c')"
    and "events response = Some evs" and "evs \<noteq> []"
  shows "stream_iteration send lg fp pollMs (s, c) =
     Inr (\<lparr>currentStartTime = Max ((\<lambda>e. nullish (timestamp e) 0) ` set evs) + 1,
           trace = trace s
             @ [(currentStartTime s, Send (stream_params lg fp (currentStartTime s)))]
             @ map (\<lambda>e. (Max ((\<lambda>e. nullish (timestamp e) 0) ` set evs) + 1, Yield e)) evs
             @ [(Max ((\<lambda>e. nullish (timestamp e) 0) ` set evs) + 1, Sleep pollMs)]\<rparr>, c')"
  using stream_iteration_nonempty [where send = send and pollMs = pollMs, OF assms]
  by (simp only: latest_timestamp_def)

text \<open>
  The batch with the timestamps 100, 250, 180, in this order and in another, polled
  with the cursor at 50: the cursor becomes 251 either way.
\<close>

theorem cursor_set_before_emit_witness:
  "stream_iteration
     (constant_source
        \<lparr>events = Some [\<lparr>timestamp = Some 100, message = None\<rparr>,
                         \<lparr>timestamp = Some 250, message = None\<rparr>,
                         \<lparr>timestamp = Some 180, message = None\<rparr>],
         nextToken = None\<rparr>)
     ''g'' None 1000 (\<lparr>currentStartTime = 50, trace = []\<rparr>, ()) =
   Inr (\<lparr>currentStartTime = 251,
         trace = [(50, Send (stream_params ''g'' None 50)),
                  (251, Yield \<lparr>timestamp = Some 100, message = None\<rparr>),
                  (251, Yield \<lparr>timestamp = Some 250, message = None\<rparr>),
                  (251, Yield \<lparr>timestamp = Some 180, message = None\<rparr>),
                  (251, Sleep 1000)]\<rparr>, ())
   \<and> stream_iteration
     (constant_source
        \<lparr>events = Some [\<lparr>timestamp = Some 250, message = None\<rparr>,
                         \<lparr>timestamp = Some 180, message = None\<rparr>,
                         \<lparr>timestamp = Some 100, message = None\<rparr>],
         nextToken = None\<rparr>)
     ''g'' None 1000 (\<lparr>currentStartTime = 50, trace = []\<rparr>, ()) =
   Inr (\<lparr>currentStartTime = 251,
         trace = [(50, Send (stream_params ''g'' None 50)),
                  (251, Yield \<lparr>timestamp = Some 250, message = None\<rparr>),
                  (251, Yield \<lparr>timestamp = Some 180, message = None\<rparr>),
                  (251, Yield \<lparr>timestamp = Some 100, message = None\<rparr>),
                  (251, Sleep 1000)]\<rparr>, ())"
proof -
  let ?a = "[\<lparr>timestamp = Some 100, message = None\<rparr>,
             \<lparr>timestamp = Some 250, message = None\<rparr>,
             \<lparr>timestamp = Some (180::int), message = (None :: string option)\<rparr>]"
  let ?b = "[\<lparr>timestamp = Some 250, message = None\<rparr>,
             \<lparr>timestamp = Some 180, message = None\<rparr>,
             \<lparr>timestamp = Some (100::int), message = (None :: string option)\<rparr>]"
  let ?s = "\<lparr>currentStartTime = 50, trace = []\<rparr>"
  have a: "constant_source \<lparr>events = Some ?a, nextToken = None\<rparr>
             (stream_params ''g'' None (currentStartTime ?s)) ()
           = (Inr \<lparr>events = Some ?a, nextToken = None\<rparr>, ())"
    by (simp add: constant_source_def)
  have b: "constant_source \<lparr>events = Some ?b, nextToken = None\<rparr>
             (stream_params ''g'' None (currentStartTime ?s)) ()
           = (Inr \<lparr>events = Some ?b, nextToken = None\<rparr>, ())"
    by (simp add: constant_source_def)
  from cursor_set_before_emit
         [where send = "constant_source \<lparr>events = Some ?a, nextToken = None\<rparr>"
            and evs = ?a and pollMs = 1000, OF a]
       cursor_set_before_emit
         [where send = "constant_source \<lparr>events = Some ?b, nextToken = None\<rparr>"
            and evs = ?b and pollMs = 1000, OF b]
  show ?thesis
    by (simp add: nullish_def)
qed

text \<open>
  C2, as amended: when the source honours the start time of each request (a batch that
  is not empty holds an event whose timestamp, an absent one read as 0, is not below
  the cursor that the poll was issued with), the cursor after each iteration of the
  streaming loop is greater than or equal to its value before that iteration.
\<close>

theorem cursor_non_decreasing:
  assumes "honours_startTime send"
    and "streamLogs n send lg fp pollMs start c = Inr (s1, c1)"
    and "streamLogs (Suc n) send lg fp pollMs start c = Inr (s2, c2)"
  shows "currentStartTime s1 \<le> currentStartTime s2"
proof -
  from assms(2,3) have "stream_iteration send lg fp pollMs (s1, c1) = Inr (s2, c2)"
    unfolding streamLogs_def stream_loop_Suc by simp
  with assms(1) show ?thesis
    by (rule stream_iteration_mono)
qed

theorem cursor_non_decreasing_witness:
  "honours_startTime source_ahead
   \<and> streamLogs 1 source_ahead ''g'' None 1000 1000 0 =
       Inr (\<lparr>currentStartTime = 1001,
             trace = [(1000, Send (stream_params ''g'' None 1000)),
                      (1001, Yield \<lparr>timestamp = Some 1000, message = None\<rparr>),
                      (1001, Sleep 1000)]\<rparr>, 1)
   \<and> streamLogs (Suc 1) source_ahead ''g'' None 1000 1000 0 =
       Inr (\<lparr>currentStartTime = 1003,
             trace = [(1000, Send (stream_params ''g'' None 1000)),
                      (1001, Yield \<lparr>timestamp = Some 1000, message = None\<rparr>),
                      (1001, Sleep 1000),
                      (1001, Send (stream_params ''g'' None 1001)),
                      (1003, Yield \<lparr>timestamp = Some 1002, message = None\<rparr>),
                      (1003, Sleep 1000)]\<rparr>, 2)
   \<and> currentStartTime \<lparr>currentStartTime = 1001,
             trace = [(1000, Send (stream_params ''g'' None 1000)),
                      (1001, Yield \<lparr>timestamp = Some 1000, message = None\<rparr>),
                      (1001, Sleep 1000)]\<rparr>
     \<le> currentStartTime \<lparr>currentStartTime = 1003,
             trace = [(1000, Send (stream_params ''g'' None 1000)),
                      (1001, Yield \<lparr>timestamp = Some 1000, message = None\<rparr>),
                      (1001, Sleep 1000),
                      (1001, Send (stream_params ''g'' None 1001)),
                      (1003, Yield \<lparr>timestamp = Some 1002, message = None\<rparr>),
                      (1003, Sleep 1000)]\<rparr>"
proof -
  have one: "streamLogs 1 source_ahead ''g'' None 1000 1000 0 =
       Inr (\<lparr>currentStartTime = 1001,
             trace = [(1000, Send (stream_params ''g'' None 1000)),
                      (1001, Yield \<lparr>timestamp = Some 1000, message = None\<rparr>),
                      (1001, Sleep 1000)]\<rparr>, 1)"
    by (simp add: streamLogs_def stream_iteration_def source_ahead_def stream_params_def
        perform_def Math_max_def nullish_def Let_def)
  have two: "streamLogs (Suc 1) source_ahead ''g'' None 1000 1000 0 =
       Inr (\<lparr>currentStartTime = 1003,
             trace = [(1000, Send (stream_params ''g'' None 1000)),
                      (1001, Yield \<lparr>timestamp = Some 1000, message = None\<rparr>),
                      (1001, Sleep 1000),
                      (1001, Send (stream_params ''g'' None 1001)),
                      (1003, Yield \<lparr>timestamp = Some 1002, message = None\<rparr>),
                      (1003, Sleep 1000)]\<rparr>, 2)"
    by (simp add: streamLogs_def stream_iteration_def source_ahead_def stream_params_def
        perform_def Math_max_def nullish_def Let_def)
  from cursor_non_decreasing [OF honours_source_ahead one two] honours_source_ahead one two
  show ?thesis
    by blast
qed

text \<open>
  The claim as it was stated fails: polled from 1000, the source \<open>source_unstamped\<close>
  moves the cursor to 2001 in the first iteration and back to 1 in the second.
\<close>

theorem cursor_regresses:
  "streamLogs 1 source_unstamped ''g'' None 1000 1000 0 =
       Inr (\<lparr>currentStartTime = 2001,
             trace = [(1000, Send (stream_params ''g'' None 1000)),
                      (2001, Yield \<lparr>timestamp = Some 2000, message = Some ''line''\<rparr>),
                      (2001, Sleep 1000)]\<rparr>, 1)
   \<and> streamLogs 2 source_unstamped ''g'' None 1000 1000 0 =
       Inr (\<lparr>currentStartTime = 1,
             trace = [(1000, Send (stream_params ''g'' None 1000)),
                      (2001, Yield \<lparr>timestamp = Some 2000, message = Some ''line''\<rparr>),
                      (2001, Sleep 1000),
                      (2001, Send (stream_params ''g'' None 2001)),
                      (1, Yield \<lparr>timestamp = None, message = Some ''line''\<rparr>),
                      (1, Sleep 1000)]\<rparr>, 2)
   \<and> (1 :: int) < 2001"
  by (simp add: streamLogs_def stream_iteration_def source_unstamped_def stream_params_def
      perform_def Math_max_def nullish_def Let_def numeral_2_eq_2)

text \<open>
  C3: in an iteration of the streaming loop whose poll returns an empty or an absent
  batch, the cursor keeps its value and nothing is handed downstream: the iteration's
  only effects are the request and the sleep for the poll interval.
\<close>

theorem empty_batch_only_sleeps:
  assumes "send (stream_params lg fp (currentStartTime s)) c = (Inr response, c')"
    and "events response = None \<or> events response = Some []"
  shows "stream_iteration send lg fp pollMs (s, c) =
     Inr (\<lparr>currentStartTime = currentStartTime s,
           trace = trace s
             @ [(currentStartTime s, Send (stream_params lg fp (currentStartTime s))),
                (currentStartTime s, Sleep pollMs)]\<rparr>, c')"
proof -
  from assms have "stream_iteration send lg fp pollMs (s, c) =
     Inr (s\<lparr>trace := trace s
              @ [(currentStartTime s, Send (stream_params lg fp (currentStartTime s))),
                 (currentStartTime s, Sleep pollMs)]\<rparr>, c')"
    by (rule stream_iteration_empty)
  then show ?thesis
    by simp
qed

theorem empty_batch_only_sleeps_witness:
  "stream_iteration (constant_source \<lparr>events = None, nextToken = None\<rparr>)
     ''g'' None 1000 (\<lparr>currentStartTime = 50, trace = []\<rparr>, ()) =
   Inr (\<lparr>currentStartTime = 50,
         trace = [(50, Send (stream_params ''g'' None 50)), (50, Sleep 1000)]\<rparr>, ())
   \<and> stream_iteration (constant_source \<lparr>events = Some [], nextToken = None\<rparr>)
     ''g'' None 1000 (\<lparr>currentStartTime = 50, trace = []\<rparr>, ()) =
   Inr (\<lparr>currentStartTime = 50,
         trace = [(50, Send (stream_params ''g'' None 50)), (50, Sleep 1000)]\<rparr>, ())"
proof -
  let ?s = "\<lparr>currentStartTime = 50, trace = []\<rparr>"
  let ?n = "\<lparr>events = None, nextToken = None\<rparr>"
  let ?e = "\<lparr>events = Some [], nextToken = None\<rparr>"
  have n: "constant_source ?n (stream_params ''g'' None (currentStartTime ?s)) ()
      = (Inr ?n, ())"
    by (simp add: constant_source_def)
  have e: "constant_source ?e (stream_params ''g'' None (currentStartTime ?s)) ()
      = (Inr ?e, ())"
    by (simp add: constant_source_def)
  have n': "events ?n = None \<or> events ?n = Some []"
    by simp
  have e': "events ?e = None \<or> events ?e = Some []"
    by simp
  from empty_batch_only_sleeps [where send = "constant_source ?n" and pollMs = 1000, OF n n']
       empty_batch_only_sleeps [where send = "constant_source ?e" and pollMs = 1000, OF e e']
  show ?thesis
    by simp
qed

text \<open>
  C10: the cursor computation reads an absent timestamp as 0: after a batch that is
  not empty the cursor is the maximum of the timestamps so read, plus 1. When every
  event of the batch lacks a timestamp the new cursor is therefore 1, which is strictly
  less than the previous cursor whenever that was above 1.
\<close>

theorem unstamped_batch_sets_cursor_to_1:
  assumes "send (stream_params lg fp (currentStartTime s)) c = (Inr response, c')"
    and "events response = Some evs" and "evs \<noteq> []"
  shows "\<exists>s'. stream_iteration send lg fp pollMs (s, c) = Inr (s', c')
     \<and> currentStartTime s'
         = Max ((\<lambda>e. case timestamp e of None \<Rightarrow> 0 | Some t \<Rightarrow> t) ` set evs) + 1
     \<and> ((\<forall>e\<in>set evs. timestamp e = None) \<longrightarrow>
          currentStartTime s' = 1
          \<and> (1 < currentStartTime s \<longrightarrow> currentStartTime s' < currentStartTime s))"
proof -
  have "latest_timestamp evs
      = Max ((\<lambda>e. case timestamp e of None \<Rightarrow> 0 | Some t \<Rightarrow> t) ` set evs)"
    by (simp add: latest_timestamp_def nullish_def)
  moreover have "latest_timestamp evs = 0" if "\<forall>e\<in>set evs. timestamp e = None"
    using assms(3) that by (rule latest_timestamp_unstamped)
  ultimately show ?thesis
    using stream_iteration_nonempty [where send = send and pollMs = pollMs, OF assms]
    by auto
qed

theorem unstamped_batch_sets_cursor_to_1_witness:
  "stream_iteration
     (constant_source
        \<lparr>events = Some [\<lparr>timestamp = None, message = Some ''a''\<rparr>,
                         \<lparr>timestamp = None, message = None\<rparr>],
         nextToken = None\<rparr>)
     ''g'' None 1000 (\<lparr>currentStartTime = 1700000000000, trace = []\<rparr>, ()) =
   Inr (\<lparr>currentStartTime = 1,
         trace = [(1700000000000, Send (stream_params ''g'' None 1700000000000)),
                  (1, Yield \<lparr>timestamp = None, message = Some ''a''\<rparr>),
                  (1, Yield \<lparr>timestamp = None, message = None\<rparr>),
                  (1, Sleep 1000)]\<rparr>, ())
   \<and> (1 :: int) < 1700000000000"
proof -
  let ?evs = "[\<lparr>timestamp = None, message = Some ''a''\<rparr>,
               \<lparr>timestamp = (None :: int option), message = None\<rparr>]"
  let ?s = "\<lparr>currentStartTime = 1700000000000, trace = []\<rparr>"
  let ?r = "\<lparr>events = Some ?evs, nextToken = None\<rparr>"
  have a: "constant_source ?r (stream_params ''g'' None (currentStartTime ?s)) ()
      = (Inr ?r, ())"
    by (simp add: constant_source_def)
  from unstamped_batch_sets_cursor_to_1
         [where send = "constant_source ?r" and evs = ?evs and pollMs = 1000, OF a]
  obtain s' where it: "stream_iteration (constant_source ?r) ''g'' None 1000 (?s, ())
      = Inr (s', ())" and "currentStartTime s' = 1"
    by auto
  have "stream_iteration (constant_source ?r) ''g'' None 1000 (?s, ()) =
    Inr (\<lparr>currentStartTime = 1,
         trace = [(1700000000000, Send (stream_params ''g'' None 1700000000000)),
                  (1, Yield \<lparr>timestamp = None, message = Some ''a''\<rparr>),
                  (1, Yield \<lparr>timestamp = None, message = None\<rparr>),
                  (1, Sleep 1000)]\<rparr>, ())"
    by (simp add: stream_iteration_def constant_source_def stream_params_def
        perform_def Math_max_def nullish_def Let_def)
  with it show ?thesis
    by simp
qed

subsection \<open>The bounded fetch\<close>

lemma events_var_step:
  "(case events page of Some (e # es) \<Rightarrow> acc @ (e # es) | _ \<Rightarrow> acc)
     = acc @ page_events page"
  by (simp add: page_events_def split: option.splits list.splits)

lemma fetchLogs_loop_chain:
  "page_chain send params token c pages c_end \<Longrightarrow>
   fetchLogs_loop send params acc token c
     = Some (Inr (acc @ concat (map page_events pages)), c_end)"
proof (induction pages arbitrary: token c acc)
  case Nil
  then show ?case by simp
next
  case (Cons page rest)
  from Cons.prems obtain c'
    where snd: "send (params\<lparr>request_nextToken := token\<rparr>) c = (Inr page, c')"
      and nxt: "if truthy (nextToken page)
                then page_chain send params (nextToken page) c' rest c_end
                else rest = [] \<and> c' = c_end"
    by (auto split: prod.splits sum.splits)
  show ?case
  proof (cases "truthy (nextToken page)")
    case True
    with nxt have "page_chain send params (nextToken page) c' rest c_end"
      by simp
    from Cons.IH [OF this, of "acc @ page_events page"] snd True show ?thesis
      by (subst fetchLogs_loop.simps) (simp add: events_var_step)
  next
    case False
    with nxt snd show ?thesis
      by (subst fetchLogs_loop.simps) (simp add: events_var_step)
  qed
qed

text \<open>A \<^verbatim>\<open>throw\<close> of the client is the outcome of the fetch.\<close>

lemma fetchLogs_loop_error:
  "send (params\<lparr>request_nextToken := token\<rparr>) c = (Inl err, c') \<Longrightarrow>
   fetchLogs_loop send params acc token c = Some (Inl err, c')"
  by (subst fetchLogs_loop.simps) simp

text \<open>
  A first page whose token is the empty string ends the fetch: the test
  \<^verbatim>\<open>while (nextToken)\<close> takes the empty string for no token.
\<close>

lemma fetchLogs_empty_token:
  assumes "send (fetchLogs_params lg fp start) c = (Inr page, c')"
    and "nextToken page = Some []"
  shows "fetchLogs send lg fp start c = Some (Inr (page_events page), c')"
proof -
  have "(fetchLogs_params lg fp start)\<lparr>request_nextToken := None\<rparr>
      = fetchLogs_params lg fp start"
    by (simp add: fetchLogs_params_def)
  with assms have "page_chain send (fetchLogs_params lg fp start) None c [page] c'"
    by (simp add: truthy_def)
  from fetchLogs_loop_chain [OF this, of "[]"] show ?thesis
    by (simp add: fetchLogs_def)
qed

text \<open>
  C4: when the responses of the source form a finite chain of pages (the first page
  answers the request without a token, each further page answers the request that
  carries the token of the page before it, and the last page is the first one without
  a token to continue with), the bounded fetch returns, and what it returns is the
  concatenation of the events of all the pages, in the order the pages arrived and
  within a page in the page's order. A page without events adds nothing. A token that
  is the empty string counts as no token, as in the loop's test
  \<^verbatim>\<open>while (nextToken)\<close>.
\<close>

theorem fetchLogs_drains_chain:
  assumes "page_chain send (fetchLogs_params lg fp start) None c pages c_end"
  shows "fetchLogs send lg fp start c = Some (Inr (concat (map page_events pages)), c_end)"
  using fetchLogs_loop_chain [OF assms, of "[]"]
  by (simp add: fetchLogs_def)

theorem fetchLogs_drains_chain_witness:
  "page_chain source_three_pages (fetchLogs_params ''g'' None 0) None 0
     [\<lparr>events = Some [\<lparr>timestamp = Some 10, message = Some ''a''\<rparr>,
                      \<lparr>timestamp = Some 30, message = Some ''b''\<rparr>],
       nextToken = Some ''t1''\<rparr>,
      \<lparr>events = None, nextToken = Some ''t2''\<rparr>,
      \<lparr>events = Some [\<lparr>timestamp = Some 20, message = Some ''c''\<rparr>],
       nextToken = None\<rparr>] 3
   \<and> fetchLogs source_three_pages ''g'' None 0 0 =
       Some (Inr [\<lparr>timestamp = Some 10, message = Some ''a''\<rparr>,
                  \<lparr>timestamp = Some 30, message = Some ''b''\<rparr>,
                  \<lparr>timestamp = Some 20, message = Some ''c''\<rparr>], 3)"
proof -
  have chain: "page_chain source_three_pages (fetchLogs_params ''g'' None 0) None 0
     [\<lparr>events = Some [\<lparr>timestamp = Some 10, message = Some ''a''\<rparr>,
                      \<lparr>timestamp = Some 30, message = Some ''b''\<rparr>],
       nextToken = Some ''t1''\<rparr>,
      \<lparr>events = None, nextToken = Some ''t2''\<rparr>,
      \<lparr>events = Some [\<lparr>timestamp = Some 20, message = Some ''c''\<rparr>],
       nextToken = None\<rparr>] 3"
    by (simp add: source_three_pages_def fetchLogs_params_def truthy_def numeral_3_eq_3)
  from fetchLogs_drains_chain [OF chain] chain show ?thesis
    by (simp add: page_events_def)
qed

subsection \<open>The lookback parser\<close>

lemma key_of_not_digit: "key_of u = Some k \<Longrightarrow> \<not> is_digit u"
  by (auto simp: key_of_def is_digit_def split: if_splits)

lemma match_time_Some:
  assumes "ds \<noteq> []" and "\<forall>c\<in>set ds. is_digit c" and "key_of u = Some k"
  shows "match_time (ds @ [u]) = Some (ds, k)"
proof -
  from assms(3) have nd: "\<not> is_digit u" by (rule key_of_not_digit)
  from assms(2) nd have "takeWhile is_digit (ds @ [u]) = ds"
    by simp
  moreover from assms(2) nd have "dropWhile is_digit (ds @ [u]) = [u]"
    by simp
  ultimately show ?thesis
    using assms(1,3) by (simp add: match_time_def)
qed

lemma match_time_SomeD:
  assumes "match_time str = Some (amount, k)"
  shows "\<exists>u. str = amount @ [u] \<and> amount \<noteq> [] \<and> (\<forall>c\<in>set amount. is_digit c)
           \<and> key_of u = Some k"
proof -
  from assms obtain u where a: "amount = takeWhile is_digit str" "amount \<noteq> []"
    and r: "dropWhile is_digit str = [u]" and k: "key_of u = Some k"
    by (auto simp: match_time_def Let_def split: if_splits list.splits option.splits)
  have "str = takeWhile is_digit str @ dropWhile is_digit str"
    by simp
  with a r have "str = amount @ [u]" by simp
  moreover from a have "\<forall>c\<in>set amount. is_digit c"
    by (auto dest: set_takeWhileD)
  ultimately show ?thesis using a k by blast
qed

lemma parseInt_snoc: "parseInt (ds @ [c]) = 10 * parseInt ds + (int (of_char c) - 48)"
  by (simp add: parseInt_def)

lemma decimal_value_snoc:
  "decimal_value (ds @ [c]) = 10 * decimal_value ds + (int (of_char c) - 48)"
proof -
  have "(\<Sum>i<length ds. (int (of_char ((ds @ [c]) ! i)) - 48) * 10 ^ (length ds - i))
      = (\<Sum>i<length ds. 10 * ((int (of_char (ds ! i)) - 48) * 10 ^ (length ds - 1 - i)))"
  proof (rule sum.cong)
    fix i assume "i \<in> {..<length ds}"
    then have i: "i < length ds" by simp
    then have "length ds - i = Suc (length ds - 1 - i)" by simp
    with i show "(int (of_char ((ds @ [c]) ! i)) - 48) * 10 ^ (length ds - i)
        = 10 * ((int (of_char (ds ! i)) - 48) * 10 ^ (length ds - 1 - i))"
      by (simp add: nth_append)
  qed simp
  then show ?thesis
    by (simp add: decimal_value_def sum_distrib_left)
qed

lemma parseInt_decimal_value: "parseInt ds = decimal_value ds"
proof (induction ds rule: rev_induct)
  case Nil
  show ?case by (simp add: parseInt_def decimal_value_def)
next
  case (snoc c ds)
  then show ?case by (simp only: parseInt_snoc decimal_value_snoc)
qed

lemma key_of_unit_ms: "key_of u = Some k \<Longrightarrow> multipliers k = unit_ms u"
  by (auto simp: key_of_def multipliers_def unit_ms_def split: if_splits)

lemma key_of_class: "(\<exists>k. key_of u = Some k) \<longleftrightarrow> u \<in> set ''smhd''"
  by (auto simp: key_of_def)

lemma is_digit_class: "is_digit c \<longleftrightarrow> c \<in> set ''0123456789''"
  by (simp add: is_digit_def)

lemma lookback_pattern_match_time:
  "lookback_pattern str \<longleftrightarrow> (\<exists>amount k. match_time str = Some (amount, k))"
proof
  assume "lookback_pattern str"
  then obtain ds u where "str = ds @ [u]" "ds \<noteq> []" "\<forall>c\<in>set ds. is_digit c"
    "u \<in> set ''smhd''"
    unfolding lookback_pattern_def is_digit_class by blast
  moreover then obtain k where "key_of u = Some k"
    using key_of_class by blast
  ultimately show "\<exists>amount k. match_time str = Some (amount, k)"
    using match_time_Some by blast
next
  assume "\<exists>amount k. match_time str = Some (amount, k)"
  then obtain amount k where "match_time str = Some (amount, k)" by blast
  from match_time_SomeD [OF this] obtain u where "str = amount @ [u]" "amount \<noteq> []"
    "\<forall>c\<in>set amount. is_digit c" "key_of u = Some k"
    by blast
  then show "lookback_pattern str"
    unfolding lookback_pattern_def is_digit_class [symmetric] key_of_class [symmetric]
    by blast
qed

text \<open>
  C9: the lookback parser returns a number exactly for the strings of the pattern
  \<^verbatim>\<open>^\d+[smhd]$\<close>. For such a string, digits \<open>ds\<close> followed by the unit \<open>u\<close>, the
  number is the value of \<open>ds\<close> times 1000, 60000, 3600000 or 86400000 for the units
  s, m, h, d, and the start time of the initial fetch is the current instant minus
  that number (stated where the product is a safe integer, so that the arithmetic on
  doubles is exact). For every other string the parser throws an error whose message
  quotes the input, and \<^verbatim>\<open>main\<close> reports it and ends the process with exit code 1.
  In particular the lookback \<open>2h\<close> at the instant \<open>now\<close> gives the start time
  \<open>now - 7200000\<close>.
\<close>

theorem parseTimeFormat_lookback:
  "(lookback_pattern str \<longleftrightarrow> (\<exists>ms. parseTimeFormat str = Inr ms))
   \<and> (\<forall>ds u. str = ds @ [u] \<and> ds \<noteq> [] \<and> (\<forall>c\<in>set ds. c \<in> set ''0123456789'')
          \<and> u \<in> set ''smhd'' \<and> decimal_value ds * unit_ms u \<le> 2 ^ 53 - 1
        \<longrightarrow> parseTimeFormat str = Inr (decimal_value ds * unit_ms u)
            \<and> main_startTime now str = Inr (now - decimal_value ds * unit_ms u))
   \<and> (\<not> lookback_pattern str
        \<longrightarrow> parseTimeFormat str
              = Inl (Error (''Invalid time format: '' @ str
                            @ ''. Use formats like: 10s, 22m, 2h, 1d''))
            \<and> main_startTime now str
              = Inl (''Error parsing --since: Invalid time format: '' @ str
                     @ ''. Use formats like: 10s, 22m, 2h, 1d'', 1))
   \<and> parseTimeFormat ''2h'' = Inr 7200000
   \<and> main_startTime now ''2h'' = Inr (now - 7200000)"
proof -
  have a: "lookback_pattern str \<longleftrightarrow> (\<exists>ms. parseTimeFormat str = Inr ms)"
    unfolding lookback_pattern_match_time
    by (auto simp: parseTimeFormat_def split: option.splits)
  have b: "parseTimeFormat str = Inr (decimal_value ds * unit_ms u)
      \<and> main_startTime now str = Inr (now - decimal_value ds * unit_ms u)"
    if "str = ds @ [u]" "ds \<noteq> []" "\<forall>c\<in>set ds. c \<in> set ''0123456789''" "u \<in> set ''smhd''"
    for ds u
  proof -
    from that(4) obtain k where k: "key_of u = Some k"
      using key_of_class by blast
    from that(3) have dg: "\<forall>c\<in>set ds. is_digit c"
      unfolding is_digit_class .
    from that(2) dg k have "match_time (ds @ [u]) = Some (ds, k)"
      by (rule match_time_Some)
    with that(1) k show ?thesis
      by (simp add: parseTimeFormat_def main_startTime_def parseInt_decimal_value
          key_of_unit_ms)
  qed
  have c: "parseTimeFormat str
        = Inl (Error (''Invalid time format: '' @ str
                      @ ''. Use formats like: 10s, 22m, 2h, 1d''))
      \<and> main_startTime now str
        = Inl (''Error parsing --since: Invalid time format: '' @ str
               @ ''. Use formats like: 10s, 22m, 2h, 1d'', 1)"
    if "\<not> lookback_pattern str"
  proof -
    from that have "match_time str = None"
      unfolding lookback_pattern_match_time by (cases "match_time str") auto
    then show ?thesis
      by (simp add: parseTimeFormat_def main_startTime_def)
  qed
  have d: "parseTimeFormat ''2h'' = Inr 7200000"
    by (simp add: parseTimeFormat_def match_time_def is_digit_def key_of_def parseInt_def
        multipliers_def)
  then have e: "main_startTime now ''2h'' = Inr (now - 7200000)"
    by (simp add: main_startTime_def)
  from a b c d e show ?thesis
    by blast
qed

text \<open>
  The lookback \<open>2h\<close> at the instant 1700000000000, and the string \<open>2 h\<close>, which
  the pattern does not match.
\<close>

theorem parseTimeFormat_lookback_witness:
  "lookback_pattern ''2h''
   \<and> parseTimeFormat ''2h'' = Inr (2 * 3600000)
   \<and> main_startTime 1700000000000 ''2h'' = Inr (1700000000000 - 7200000)
   \<and> \<not> lookback_pattern ''2 h''
   \<and> main_startTime 1700000000000 ''2 h''
       = Inl (''Error parsing --since: Invalid time format: 2 h. Use formats like: 10s, 22m, 2h, 1d'', 1)"
proof -
  note t = parseTimeFormat_lookback [of "''2h''" 1700000000000]
  note f = parseTimeFormat_lookback [of "''2 h''" 1700000000000]
  from t have p: "parseTimeFormat ''2h'' = Inr 7200000"
    and m: "main_startTime 1700000000000 ''2h'' = Inr (1700000000000 - 7200000)"
    by blast+
  from t p have l: "lookback_pattern ''2h''"
    by blast
  have "parseTimeFormat ''2 h''
      = Inl (Error ''Invalid time format: 2 h. Use formats like: 10s, 22m, 2h, 1d'')"
    by (simp add: parseTimeFormat_def match_time_def is_digit_def)
  with f have n: "\<not> lookback_pattern ''2 h''"
    by auto
  with f have "main_startTime 1700000000000 ''2 h''
       = Inl (''Error parsing --since: Invalid time format: '' @ ''2 h''
                     @ ''. Use formats like: 10s, 22m, 2h, 1d'', 1)"
    by blast
  with p m l n show ?thesis
    by simp
qed

subsection \<open>The correlation token\<close>

lemma first_match_Some_iff:
  "first_match at s = Some r \<longleftrightarrow>
     (\<exists>i\<le>length s. at (drop i s) = Some r \<and> (\<forall>j<i. at (drop j s) = None))"
proof (induction s)
  case Nil
  then show ?case by auto
next
  case (Cons c s)
  show ?case
  proof (cases "at (c # s)")
    case (Some r')
    have "(\<exists>i\<le>length (c # s). at (drop i (c # s)) = Some r \<and> (\<forall>j<i. at (drop j (c # s)) = None))
        \<longleftrightarrow> r' = r"
    proof
      assume "\<exists>i\<le>length (c # s). at (drop i (c # s)) = Some r \<and> (\<forall>j<i. at (drop j (c # s)) = None)"
      then obtain i where i: "at (drop i (c # s)) = Some r" "\<forall>j<i. at (drop j (c # s)) = None"
        by blast
      show "r' = r"
      proof (cases i)
        case 0
        with i Some show ?thesis by simp
      next
        case (Suc k)
        with i(2) have "at (drop 0 (c # s)) = None" by blast
        with Some show ?thesis by simp
      qed
    next
      assume "r' = r"
      with Some have "at (drop 0 (c # s)) = Some r \<and> (\<forall>j<0. at (drop j (c # s)) = None)"
        by simp
      then show "\<exists>i\<le>length (c # s). at (drop i (c # s)) = Some r \<and> (\<forall>j<i. at (drop j (c # s)) = None)"
        by blast
    qed
    with Some show ?thesis by simp
  next
    case None
    have "(\<exists>i\<le>length (c # s). at (drop i (c # s)) = Some r \<and> (\<forall>j<i. at (drop j (c # s)) = None))
        \<longleftrightarrow> (\<exists>i\<le>length s. at (drop i s) = Some r \<and> (\<forall>j<i. at (drop j s) = None))"
    proof
      assume "\<exists>i\<le>length (c # s). at (drop i (c # s)) = Some r \<and> (\<forall>j<i. at (drop j (c # s)) = None)"
      then obtain i where i: "i \<le> length (c # s)" "at (drop i (c # s)) = Some r"
        "\<forall>j<i. at (drop j (c # s)) = None"
        by blast
      from i(2) None obtain k where k: "i = Suc k" by (cases i) auto
      with i(1,2) have "k \<le> length s" "at (drop k s) = Some r" by simp_all
      moreover have "at (drop j s) = None" if "j < k" for j
        using i(3) k that by (auto dest: spec [of _ "Suc j"])
      ultimately show "\<exists>i\<le>length s. at (drop i s) = Some r \<and> (\<forall>j<i. at (drop j s) = None)"
        by blast
    next
      assume "\<exists>i\<le>length s. at (drop i s) = Some r \<and> (\<forall>j<i. at (drop j s) = None)"
      then obtain k where k: "k \<le> length s" "at (drop k s) = Some r"
        "\<forall>j<k. at (drop j s) = None"
        by blast
      have "at (drop j (c # s)) = None" if "j < Suc k" for j
        using that k(3) None by (cases j) auto
      with k(1,2) have "Suc k \<le> length (c # s) \<and> at (drop (Suc k) (c # s)) = Some r
          \<and> (\<forall>j<Suc k. at (drop j (c # s)) = None)"
        by simp
      then show "\<exists>i\<le>length (c # s). at (drop i (c # s)) = Some r \<and> (\<forall>j<i. at (drop j (c # s)) = None)"
        by blast
    qed
    with None Cons.IH show ?thesis by simp
  qed
qed

lemma first_match_None_iff:
  "first_match at s = None \<longleftrightarrow> (\<forall>i\<le>length s. at (drop i s) = None)"
proof (induction s)
  case Nil
  then show ?case by simp
next
  case (Cons c s)
  have "(\<forall>i\<le>length (c # s). at (drop i (c # s)) = None)
      \<longleftrightarrow> at (c # s) = None \<and> (\<forall>i\<le>length s. at (drop i s) = None)"
  proof
    assume a: "\<forall>i\<le>length (c # s). at (drop i (c # s)) = None"
    then have "at (drop 0 (c # s)) = None" by blast
    moreover have "at (drop i s) = None" if "i \<le> length s" for i
      using a that by (auto dest: spec [of _ "Suc i"])
    ultimately show "at (c # s) = None \<and> (\<forall>i\<le>length s. at (drop i s) = None)"
      by simp
  next
    assume a: "at (c # s) = None \<and> (\<forall>i\<le>length s. at (drop i s) = None)"
    show "\<forall>i\<le>length (c # s). at (drop i (c # s)) = None"
    proof (intro allI impI)
      fix i assume "i \<le> length (c # s)"
      with a show "at (drop i (c # s)) = None" by (cases i) auto
    qed
  qed
  with Cons.IH show ?case by (simp split: option.splits)
qed

lemma at_RequestId_Some_iff:
  "at_RequestId s = Some run \<longleftrightarrow>
     (\<exists>rest. s = ''RequestId: '' @ run @ rest \<and> run \<noteq> []
        \<and> (\<forall>x\<in>set run. is_id_char x)
        \<and> (\<forall>y ys. rest = y # ys \<longrightarrow> \<not> is_id_char y))"
proof
  assume a: "at_RequestId s = Some run"
  then have p: "prefix ''RequestId: '' s"
    by (simp add: at_RequestId_def split: if_splits)
  then obtain t where t: "s = ''RequestId: '' @ t"
    by (auto simp: prefix_def)
  with a have run: "run = takeWhile is_id_char t" "run \<noteq> []"
    by (auto simp: at_RequestId_def Let_def split: if_splits)
  have "t = run @ dropWhile is_id_char t"
    by (simp add: run(1))
  moreover have "\<forall>x\<in>set run. is_id_char x"
    by (auto simp: run(1) dest: set_takeWhileD)
  moreover have "\<not> is_id_char y" if "dropWhile is_id_char t = y # ys" for y ys
    using hd_dropWhile [of is_id_char t] that by simp
  ultimately show "\<exists>rest. s = ''RequestId: '' @ run @ rest \<and> run \<noteq> []
        \<and> (\<forall>x\<in>set run. is_id_char x)
        \<and> (\<forall>y ys. rest = y # ys \<longrightarrow> \<not> is_id_char y)"
    using t run(2) by (metis append_assoc)
next
  assume "\<exists>rest. s = ''RequestId: '' @ run @ rest \<and> run \<noteq> []
        \<and> (\<forall>x\<in>set run. is_id_char x)
        \<and> (\<forall>y ys. rest = y # ys \<longrightarrow> \<not> is_id_char y)"
  then obtain rest where s: "s = ''RequestId: '' @ run @ rest" and ne: "run \<noteq> []"
    and all: "\<forall>x\<in>set run. is_id_char x"
    and stop: "\<forall>y ys. rest = y # ys \<longrightarrow> \<not> is_id_char y"
    by blast
  from stop have "takeWhile is_id_char rest = []"
    by (cases rest) auto
  with all have "takeWhile is_id_char (run @ rest) = run"
    by simp
  with s ne show "at_RequestId s = Some run"
    by (simp add: at_RequestId_def)
qed

lemma id_after_marker_at_iff:
  "id_after_marker_at msg i run \<longleftrightarrow> at_RequestId (drop i msg) = Some run"
  by (simp only: at_RequestId_Some_iff id_after_marker_at_def is_id_char_def)

lemma no_id_after_marker_at_iff:
  "(\<forall>run. \<not> id_after_marker_at msg i run) \<longleftrightarrow> at_RequestId (drop i msg) = None"
  by (simp only: id_after_marker_at_iff not_Some_eq)

lemma id_after_marker_at_length:
  assumes "id_after_marker_at msg i run"
  shows "i \<le> length msg"
proof -
  from assms obtain rest where "drop i msg = ''RequestId: '' @ run @ rest"
    unfolding id_after_marker_at_def by blast
  then have "length (drop i msg) = length (''RequestId: '' @ run @ rest)"
    by (rule arg_cong)
  then show ?thesis
    by simp
qed

lemma match_counts_prefix_self:
  "match_counts items s = Some m \<longleftrightarrow> prefix m s \<and> match_counts items m = Some m"
proof (induction items arbitrary: s m)
  case Nil
  then show ?case by auto
next
  case (Cons item items)
  obtain cls n where item: "item = (cls, n)"
    by (cases item)
  show ?case
  proof
    assume a: "match_counts (item # items) s = Some m"
    then obtain m' where n: "n \<le> length s" and cl: "list_all cls (take n s)"
      and m': "match_counts items (drop n s) = Some m'" and m: "m = take n s @ m'"
      by (auto simp: item split: if_splits option.splits)
    from Cons.IH [of "drop n s" m'] m'
    have p: "prefix m' (drop n s)" and self: "match_counts items m' = Some m'"
      by simp_all
    from p have "prefix (take n s @ m') (take n s @ drop n s)"
      by (simp only: same_prefix_prefix)
    then have "prefix m s"
      by (simp only: m append_take_drop_id)
    moreover have "match_counts (item # items) m = Some m"
    proof -
      from n have tm: "take n m = take n s" and dm: "drop n m = m'" and nm: "n \<le> length m"
        by (simp_all add: m)
      from nm cl self have "match_counts (item # items) m = Some (take n s @ m')"
        by (simp add: item tm dm)
      then show ?thesis
        by (simp only: m [symmetric])
    qed
    ultimately show "prefix m s \<and> match_counts (item # items) m = Some m"
      by simp
  next
    assume a: "prefix m s \<and> match_counts (item # items) m = Some m"
    then obtain r where s: "s = m @ r"
      by (auto simp: prefix_def)
    from a obtain m' where n: "n \<le> length m" and cl: "list_all cls (take n m)"
      and m': "match_counts items (drop n m) = Some m'" and m: "m = take n m @ m'"
      by (auto simp: item split: if_splits option.splits)
    from m have dm: "m' = drop n m"
      by (metis append_eq_conv_conj append_take_drop_id)
    from n have ts: "take n s = take n m" and ds: "drop n s = drop n m @ r"
      by (simp_all add: s)
    have "prefix (drop n m) (drop n s)"
      by (simp add: ds)
    with Cons.IH [of "drop n s" "drop n m"] m' dm
    have "match_counts items (drop n s) = Some (drop n m)"
      by simp
    with n cl ts s show "match_counts (item # items) s = Some m"
      by (simp add: item)
  qed
qed

lemma match_counts_self_Cons:
  "match_counts ((cls, n) # items) m = Some m \<longleftrightarrow>
     (\<exists>a r. m = a @ r \<and> length a = n \<and> (\<forall>x\<in>set a. cls x)
        \<and> match_counts items r = Some r)"
proof
  assume a: "match_counts ((cls, n) # items) m = Some m"
  then obtain m' where n: "n \<le> length m" and cl: "list_all cls (take n m)"
    and m': "match_counts items (drop n m) = Some m'" and m: "m = take n m @ m'"
    by (auto split: if_splits option.splits)
  from m have "m' = drop n m"
    by (metis append_eq_conv_conj append_take_drop_id)
  with n cl m' have "m = take n m @ drop n m \<and> length (take n m) = n
      \<and> (\<forall>x\<in>set (take n m). cls x) \<and> match_counts items (drop n m) = Some (drop n m)"
    by (simp add: list_all_iff)
  then show "\<exists>a r. m = a @ r \<and> length a = n \<and> (\<forall>x\<in>set a. cls x)
        \<and> match_counts items r = Some r"
    by blast
next
  assume "\<exists>a r. m = a @ r \<and> length a = n \<and> (\<forall>x\<in>set a. cls x)
        \<and> match_counts items r = Some r"
  then show "match_counts ((cls, n) # items) m = Some m"
    by (auto simp: list_all_iff)
qed

lemma hex_group_is_hex: "hex_group n a \<longleftrightarrow> length a = n \<and> (\<forall>x\<in>set a. is_hex x)"
  by (simp add: hex_group_def is_hex_def)

lemma match_counts_self_append:
  "length a = n \<Longrightarrow> \<forall>x\<in>set a. cls x \<Longrightarrow> match_counts items r = Some r \<Longrightarrow>
   match_counts ((cls, n) # items) (a @ r) = Some (a @ r)"
  by (auto simp: list_all_iff)

lemma match_counts_self_last:
  "length a = n \<Longrightarrow> \<forall>x\<in>set a. cls x \<Longrightarrow> match_counts [(cls, n)] a = Some a"
  using match_counts_self_append [of a n cls "[]" "[]"] by simp

lemma uuid_shaped_match: "uuid_shaped u \<Longrightarrow> match_counts uuid_regex u = Some u"
proof -
  assume "uuid_shaped u"
  then obtain a b c d e where u: "u = a @ ''-'' @ b @ ''-'' @ c @ ''-'' @ d @ ''-'' @ e"
    and g: "length a = 8" "\<forall>x\<in>set a. is_hex x" "length b = 4" "\<forall>x\<in>set b. is_hex x"
      "length c = 4" "\<forall>x\<in>set c. is_hex x" "length d = 4" "\<forall>x\<in>set d. is_hex x"
      "length e = 12" "\<forall>x\<in>set e. is_hex x"
    unfolding uuid_shaped_def hex_group_is_hex by blast
  have h: "length ''-'' = 1" "\<forall>x\<in>set ''-''. is_hyphen x"
    by (simp_all add: is_hyphen_def)
  show ?thesis
    unfolding u uuid_regex_def
    by (intro match_counts_self_append match_counts_self_last g h)
qed

lemma match_counts_self_ConsE:
  assumes "match_counts ((cls, n) # items) m = Some m"
  obtains a r where "m = a @ r" and "length a = n" and "\<forall>x\<in>set a. cls x"
    and "match_counts items r = Some r"
  using assms match_counts_self_Cons [of cls n items m] by blast

lemma hyphen_groupD: "length h = 1 \<Longrightarrow> \<forall>x\<in>set h. is_hyphen x \<Longrightarrow> h = ''-''"
  by (cases h) (auto simp: is_hyphen_def)

lemma match_uuid_shaped:
  assumes "match_counts uuid_regex u = Some u"
  shows "uuid_shaped u"
proof -
  from assms
  have "match_counts [(is_hex, 8), (is_hyphen, 1), (is_hex, 4), (is_hyphen, 1), (is_hex, 4),
      (is_hyphen, 1), (is_hex, 4), (is_hyphen, 1), (is_hex, 12)] u = Some u"
    by (simp only: uuid_regex_def)
  then obtain a r1 where 1: "u = a @ r1" "length a = 8" "\<forall>x\<in>set a. is_hex x"
    and m1: "match_counts [(is_hyphen, 1), (is_hex, 4), (is_hyphen, 1), (is_hex, 4),
      (is_hyphen, 1), (is_hex, 4), (is_hyphen, 1), (is_hex, 12)] r1 = Some r1"
    by (rule match_counts_self_ConsE)
  from m1 obtain h1 r2 where 2: "r1 = h1 @ r2" "length h1 = 1" "\<forall>x\<in>set h1. is_hyphen x"
    and m2: "match_counts [(is_hex, 4), (is_hyphen, 1), (is_hex, 4),
      (is_hyphen, 1), (is_hex, 4), (is_hyphen, 1), (is_hex, 12)] r2 = Some r2"
    by (rule match_counts_self_ConsE)
  from m2 obtain b r3 where 3: "r2 = b @ r3" "length b = 4" "\<forall>x\<in>set b. is_hex x"
    and m3: "match_counts [(is_hyphen, 1), (is_hex, 4),
      (is_hyphen, 1), (is_hex, 4), (is_hyphen, 1), (is_hex, 12)] r3 = Some r3"
    by (rule match_counts_self_ConsE)
  from m3 obtain h2 r4 where 4: "r3 = h2 @ r4" "length h2 = 1" "\<forall>x\<in>set h2. is_hyphen x"
    and m4: "match_counts [(is_hex, 4),
      (is_hyphen, 1), (is_hex, 4), (is_hyphen, 1), (is_hex, 12)] r4 = Some r4"
    by (rule match_counts_self_ConsE)
  from m4 obtain c r5 where 5: "r4 = c @ r5" "length c = 4" "\<forall>x\<in>set c. is_hex x"
    and m5: "match_counts [(is_hyphen, 1), (is_hex, 4), (is_hyphen, 1), (is_hex, 12)] r5
      = Some r5"
    by (rule match_counts_self_ConsE)
  from m5 obtain h3 r6 where 6: "r5 = h3 @ r6" "length h3 = 1" "\<forall>x\<in>set h3. is_hyphen x"
    and m6: "match_counts [(is_hex, 4), (is_hyphen, 1), (is_hex, 12)] r6 = Some r6"
    by (rule match_counts_self_ConsE)
  from m6 obtain d r7 where 7: "r6 = d @ r7" "length d = 4" "\<forall>x\<in>set d. is_hex x"
    and m7: "match_counts [(is_hyphen, 1), (is_hex, 12)] r7 = Some r7"
    by (rule match_counts_self_ConsE)
  from m7 obtain h4 r8 where 8: "r7 = h4 @ r8" "length h4 = 1" "\<forall>x\<in>set h4. is_hyphen x"
    and m8: "match_counts [(is_hex, 12)] r8 = Some r8"
    by (rule match_counts_self_ConsE)
  from m8 obtain e r9 where 9: "r8 = e @ r9" "length e = 12" "\<forall>x\<in>set e. is_hex x"
    and m9: "match_counts [] r9 = Some r9"
    by (rule match_counts_self_ConsE)
  from m9 have r9: "r9 = []"
    by simp
  from 2 4 6 8 have h: "h1 = ''-''" "h2 = ''-''" "h3 = ''-''" "h4 = ''-''"
    by (simp_all only: hyphen_groupD)
  have "u = a @ ''-'' @ b @ ''-'' @ c @ ''-'' @ d @ ''-'' @ e"
    by (simp only: 1(1) 2(1) 3(1) 4(1) 5(1) 6(1) 7(1) 8(1) 9(1) r9 h append_Nil2)
  moreover have "hex_group 8 a" "hex_group 4 b" "hex_group 4 c" "hex_group 4 d"
    "hex_group 12 e"
    using 1 3 5 7 9 by (simp_all only: hex_group_is_hex simp_thms)
  ultimately show ?thesis
    unfolding uuid_shaped_def by blast
qed

lemma uuid_shaped_iff: "uuid_shaped u \<longleftrightarrow> match_counts uuid_regex u = Some u"
  using uuid_shaped_match match_uuid_shaped by blast

lemma at_uuid_Some_iff: "at_uuid s = Some u \<longleftrightarrow> prefix u s \<and> uuid_shaped u"
  unfolding at_uuid_def uuid_shaped_iff by (rule match_counts_prefix_self)

lemma uuid_at_iff:
  "uuid_at msg i u \<longleftrightarrow> i \<le> length msg \<and> at_uuid (drop i msg) = Some u"
  by (simp only: uuid_at_def at_uuid_Some_iff)

lemma no_marker_anywhere:
  assumes "first_match at_RequestId msg = None"
  shows "\<forall>j r. \<not> id_after_marker_at msg j r"
proof (intro allI notI)
  fix j r
  assume a: "id_after_marker_at msg j r"
  then have "j \<le> length msg"
    by (rule id_after_marker_at_length)
  with assms have "at_RequestId (drop j msg) = None"
    by (simp only: first_match_None_iff)
  with a show False
    by (simp add: id_after_marker_at_iff)
qed

lemma no_uuid_anywhere:
  assumes "first_match at_uuid msg = None"
  shows "\<forall>j v. \<not> uuid_at msg j v"
  using assms by (auto simp: first_match_None_iff uuid_at_iff)

lemma first_marker_match:
  assumes "id_after_marker_at msg i run" and "\<forall>j<i. \<forall>r. \<not> id_after_marker_at msg j r"
  shows "first_match at_RequestId msg = Some run"
proof -
  from assms(1) have "i \<le> length msg"
    by (rule id_after_marker_at_length)
  moreover from assms(1) have "at_RequestId (drop i msg) = Some run"
    by (simp only: id_after_marker_at_iff)
  moreover from assms(2) have "\<forall>j<i. at_RequestId (drop j msg) = None"
    by (simp only: no_id_after_marker_at_iff)
  ultimately show ?thesis
    unfolding first_match_Some_iff by blast
qed

lemma no_marker_match:
  assumes "\<forall>j r. \<not> id_after_marker_at msg j r"
  shows "first_match at_RequestId msg = None"
proof -
  have "at_RequestId (drop j msg) = None" for j
    using assms no_id_after_marker_at_iff [of msg j] by blast
  then show ?thesis
    unfolding first_match_None_iff by blast
qed

lemma first_uuid_match:
  assumes "uuid_at msg i u" and "\<forall>j<i. \<forall>v. \<not> uuid_at msg j v"
  shows "first_match at_uuid msg = Some u"
proof -
  from assms(1) have i: "i \<le> length msg" "at_uuid (drop i msg) = Some u"
    by (simp_all only: uuid_at_iff)
  have "at_uuid (drop j msg) = None" if "j < i" for j
  proof -
    from that i(1) have "j \<le> length msg"
      by simp
    with assms(2) that have "\<forall>v. at_uuid (drop j msg) \<noteq> Some v"
      by (simp add: uuid_at_iff)
    then show ?thesis
      by simp
  qed
  with i show ?thesis
    unfolding first_match_Some_iff by blast
qed

lemma no_uuid_match:
  assumes "\<forall>j v. \<not> uuid_at msg j v"
  shows "first_match at_uuid msg = None"
proof -
  have "at_uuid (drop j msg) = None" if "j \<le> length msg" for j
  proof -
    from assms that have "\<forall>v. at_uuid (drop j msg) \<noteq> Some v"
      by (simp add: uuid_at_iff)
    then show ?thesis
      by simp
  qed
  then show ?thesis
    unfolding first_match_None_iff by blast
qed

text \<open>
  C7, as amended: for every raw message the correlation token is
  \<^item> the first 6 characters (all of them when there are fewer) of the id at the
    leftmost place where \<open>RequestId:\<close> and a blank are followed by an id, an id being
    a maximal run, not empty, of the characters a to f, 0 to 9 and the hyphen;
  \<^item> when there is no such place, the first 6 characters of the leftmost UUID in
    lower case (groups of 8, 4, 4, 4 and 12 characters a to f or 0 to 9, hyphens
    between them);
  \<^item> when there is neither, the placeholder of six hyphens.
\<close>

theorem extractRequestId_cases:
  "(id_after_marker_at msg i run \<and> (\<forall>j<i. \<forall>r. \<not> id_after_marker_at msg j r)
      \<longrightarrow> extractRequestId msg = take 6 run)
   \<and> ((\<forall>j r. \<not> id_after_marker_at msg j r)
        \<and> uuid_at msg k u \<and> (\<forall>j<k. \<forall>v. \<not> uuid_at msg j v)
      \<longrightarrow> extractRequestId msg = take 6 u)
   \<and> ((\<forall>j r. \<not> id_after_marker_at msg j r) \<and> (\<forall>j v. \<not> uuid_at msg j v)
      \<longrightarrow> extractRequestId msg = ''------'')"
proof (intro conjI impI)
  assume "id_after_marker_at msg i run \<and> (\<forall>j<i. \<forall>r. \<not> id_after_marker_at msg j r)"
  then have "first_match at_RequestId msg = Some run"
    using first_marker_match by blast
  then show "extractRequestId msg = take 6 run"
    by (simp add: extractRequestId_def)
next
  assume a: "(\<forall>j r. \<not> id_after_marker_at msg j r)
        \<and> uuid_at msg k u \<and> (\<forall>j<k. \<forall>v. \<not> uuid_at msg j v)"
  then have "first_match at_RequestId msg = None"
    using no_marker_match by blast
  moreover from a have "first_match at_uuid msg = Some u"
    using first_uuid_match by blast
  ultimately show "extractRequestId msg = take 6 u"
    by (simp add: extractRequestId_def)
next
  assume a: "(\<forall>j r. \<not> id_after_marker_at msg j r) \<and> (\<forall>j v. \<not> uuid_at msg j v)"
  then have "first_match at_RequestId msg = None"
    using no_marker_match by blast
  moreover from a have "first_match at_uuid msg = None"
    using no_uuid_match by blast
  ultimately show "extractRequestId msg = ''------''"
    by (simp add: extractRequestId_def)
qed

text \<open>
  Three messages: an END line of Lambda with the marker at index 4, a line with a
  bare UUID at index 2, and a line with neither.
\<close>

theorem extractRequestId_cases_witness:
  "id_after_marker_at ''END RequestId: 8f5a2c1e-0b7d-4e6a-9c3f-1a2b3c4d5e6f'' 4
     ''8f5a2c1e-0b7d-4e6a-9c3f-1a2b3c4d5e6f''
   \<and> extractRequestId ''END RequestId: 8f5a2c1e-0b7d-4e6a-9c3f-1a2b3c4d5e6f'' = ''8f5a2c''
   \<and> uuid_at ''x 8f5a2c1e-0b7d-4e6a-9c3f-1a2b3c4d5e6f y'' 2
       ''8f5a2c1e-0b7d-4e6a-9c3f-1a2b3c4d5e6f''
   \<and> extractRequestId ''x 8f5a2c1e-0b7d-4e6a-9c3f-1a2b3c4d5e6f y'' = ''8f5a2c''
   \<and> extractRequestId ''hello'' = ''------''"
proof -
  let ?id = "''8f5a2c1e-0b7d-4e6a-9c3f-1a2b3c4d5e6f''"
  let ?m1 = "''END RequestId: 8f5a2c1e-0b7d-4e6a-9c3f-1a2b3c4d5e6f''"
  let ?m2 = "''x 8f5a2c1e-0b7d-4e6a-9c3f-1a2b3c4d5e6f y''"
  have a1: "id_after_marker_at ?m1 4 ?id"
    unfolding id_after_marker_at_iff by code_simp
  have "at_RequestId (drop j ?m1) = None" if "j < 4" for j
  proof -
    from that consider "j = 0" | "j = 1" | "j = 2" | "j = 3"
      by linarith
    then show ?thesis
      by cases (simp_all add: at_RequestId_def)
  qed
  then have b1: "\<forall>j<4. \<forall>r. \<not> id_after_marker_at ?m1 j r"
    by (simp add: id_after_marker_at_iff)
  from extractRequestId_cases [of ?m1 4 ?id] a1 b1
  have r1: "extractRequestId ?m1 = take 6 ?id"
    by blast
  have "first_match at_RequestId ?m2 = None"
    by code_simp
  then have a2: "\<forall>j r. \<not> id_after_marker_at ?m2 j r"
    by (rule no_marker_anywhere)
  have b2: "uuid_at ?m2 2 ?id"
    unfolding uuid_at_iff by code_simp
  have z0: "at_uuid (drop 0 ?m2) = None"
    by code_simp
  have z1: "at_uuid (drop 1 ?m2) = None"
    by code_simp
  have "at_uuid (drop j ?m2) = None" if "j < 2" for j
  proof -
    from that consider "j = 0" | "j = 1"
      by linarith
    then show ?thesis
    proof cases
      case 1
      with z0 show ?thesis by simp
    next
      case 2
      with z1 show ?thesis by simp
    qed
  qed
  then have c2: "\<forall>j<2. \<forall>v. \<not> uuid_at ?m2 j v"
    by (simp add: uuid_at_iff)
  from extractRequestId_cases [of ?m2 _ _ 2 ?id] a2 b2 c2
  have r2: "extractRequestId ?m2 = take 6 ?id"
    by blast
  have "first_match at_RequestId ''hello'' = None"
    by code_simp
  then have a3: "\<forall>j r. \<not> id_after_marker_at ''hello'' j r"
    by (rule no_marker_anywhere)
  have "first_match at_uuid ''hello'' = None"
    by code_simp
  then have b3: "\<forall>j v. \<not> uuid_at ''hello'' j v"
    by (rule no_uuid_anywhere)
  from extractRequestId_cases [of "''hello''"] a3 b3
  have r3: "extractRequestId ''hello'' = ''------''"
    by blast
  from a1 r1 b2 r2 r3 show ?thesis
    by simp
qed

text \<open>
  The claim as it was stated fails. After the marker stands an id in upper case: the
  token is the one character \<open>8\<close>, where the first 6 characters of the id are
  \<open>8F5A2C\<close>. After the marker stands an id of other characters: the token is the
  placeholder, although the marker is present.
\<close>

theorem extractRequestId_marker_present:
  "sublist ''RequestId: '' ''RequestId: 8F5A2C1E-0B7D-4E6A-9C3F-1A2B3C4D5E6F''
   \<and> extractRequestId ''RequestId: 8F5A2C1E-0B7D-4E6A-9C3F-1A2B3C4D5E6F'' = ''8''
   \<and> take 6 ''8F5A2C1E-0B7D-4E6A-9C3F-1A2B3C4D5E6F'' = ''8F5A2C''
   \<and> sublist ''RequestId: '' ''RequestId: XYZ''
   \<and> extractRequestId ''RequestId: XYZ'' = ''------''
   \<and> take 6 ''XYZ'' = ''XYZ''"
proof -
  have "includes_js ''RequestId: 8F5A2C1E-0B7D-4E6A-9C3F-1A2B3C4D5E6F'' ''RequestId: ''"
    by code_simp
  moreover have "includes_js ''RequestId: XYZ'' ''RequestId: ''"
    by code_simp
  moreover
  have "extractRequestId ''RequestId: 8F5A2C1E-0B7D-4E6A-9C3F-1A2B3C4D5E6F'' = ''8''"
    by code_simp
  moreover have "extractRequestId ''RequestId: XYZ'' = ''------''"
    by code_simp
  ultimately show ?thesis
    by (simp add: includes_sublist)
qed

end
